theory Spec2Isabelle
  imports Main "HOL-Library.Word"
begin

unbundle bit_operations_syntax

section \<open>Conventions of the embedding\<close>

text \<open>
  The repository is C++. Every function that can read a vector or a table outside its
  bounds, overflow a signed integer or divide by zero returns an \<open>option\<close>:
  \<open>None\<close> stands for the undefined behaviour of the C++ program at that point, and
  \<open>Some v\<close> for a run that returns \<open>v\<close>. \<open>uint8_t\<close> and \<open>uint16_t\<close> are
  \<open>8 word\<close> and \<open>16 word\<close>; their operands are promoted to \<open>int\<close> by C++ and
  the result is converted back on assignment, which is reduction modulo \<open>2 ^ 8\<close> or
  \<open>2 ^ 16\<close> and therefore agrees with the word operations used here.
\<close>

type_synonym u8 = "8 word"
type_synonym u16 = "16 word"

text \<open>\<open>v[i]\<close> on a vector or a fixed-size table: defined only inside the bounds.\<close>

definition at :: "'a list \<Rightarrow> int \<Rightarrow> 'a option" where
  "at xs i = (if 0 \<le> i \<and> i < int (length xs) then Some (xs ! nat i) else None)"

section \<open>Cipher B: src/02\_aes/AES.cpp\<close>

text \<open>
  The static tables \<open>SimplifiedAES::sBox\<close> and \<open>SimplifiedAES::sBoxI\<close>; they carry
  the class name here because cipher A has a function called \<open>sBox\<close>.
\<close>

definition AES_sBox :: "u8 list" where
  "AES_sBox = [0x9, 0x4, 0xA, 0xB, 0xD, 0x1, 0x8, 0x5, 0x6, 0x2, 0x0, 0x3, 0xC, 0xE, 0xF, 0x7]"

definition AES_sBoxI :: "u8 list" where
  "AES_sBoxI = [0xA, 0x5, 0x9, 0xB, 0x1, 0x7, 0x8, 0xF, 0x6, 0x0, 0x2, 0x3, 0xC, 0x4, 0xD, 0xE]"

text \<open>A table of 16 entries indexed by a \<open>uint8_t\<close>.\<close>

definition tab :: "u8 list \<Rightarrow> u8 \<Rightarrow> u8 option" where
  "tab t x = at t (uint x)"

definition subWord :: "u8 \<Rightarrow> u8 option" where
  "subWord word =
     (case tab AES_sBox (drop_bit 4 word) of None \<Rightarrow> None
      | Some hi \<Rightarrow>
        (case tab AES_sBox (word AND 0x0F) of None \<Rightarrow> None
         | Some lo \<Rightarrow> Some (push_bit 4 hi OR lo)))"

definition rotWord :: "u8 \<Rightarrow> u8" where
  "rotWord word = push_bit 4 (word AND 0x0F) OR drop_bit 4 (word AND 0xF0)"

definition intToState :: "u16 \<Rightarrow> u8 list" where
  "intToState n =
     [ucast (drop_bit 12 n AND 0xF), ucast (drop_bit 4 n AND 0xF),
      ucast (drop_bit 8 n AND 0xF), ucast (n AND 0xF)]"

fun stateToInt :: "u8 list \<Rightarrow> u16 option" where
  "stateToInt (m0 # m1 # m2 # m3 # _) =
     Some (push_bit 12 (ucast m0) + push_bit 8 (ucast m2) + push_bit 4 (ucast m1) + ucast m3)"
| "stateToInt _ = None"

definition keyExpansion :: "u16 \<Rightarrow> (u8 list \<times> u8 list \<times> u8 list) option" where
  "keyExpansion key =
     (let Rcon1 = (0x80 :: u8);
          Rcon2 = (0x30 :: u8);
          w0 = (ucast (drop_bit 8 (key AND 0xFF00)) :: u8);
          w1 = (ucast (key AND 0x00FF) :: u8)
      in case subWord (rotWord w1) of None \<Rightarrow> None
         | Some t1 \<Rightarrow>
           (let w2 = w0 XOR (t1 XOR Rcon1);
                w3 = w2 XOR w1
            in case subWord (rotWord w3) of None \<Rightarrow> None
               | Some t2 \<Rightarrow>
                 (let w4 = w2 XOR (t2 XOR Rcon2);
                      w5 = w4 XOR w3;
                      k0 = intToState (push_bit 8 (ucast w0) + ucast w1);
                      k1 = intToState (push_bit 8 (ucast w2) + ucast w3);
                      k2 = intToState (push_bit 8 (ucast w4) + ucast w5)
                  in Some (k0, k1, k2))))"

text \<open>
  The \<open>while (b)\<close> loop of \<open>gfMult\<close>: one call is one test of the loop condition,
  the arguments are the variables \<open>a\<close>, \<open>b\<close> and \<open>product\<close>.
\<close>

function gfMult_loop :: "u8 \<Rightarrow> u8 \<Rightarrow> u8 \<Rightarrow> u8" where
  "gfMult_loop a b product =
     (if b \<noteq> 0 then
        (let product1 = (if b AND 1 \<noteq> 0 then product XOR a else product);
             a1 = push_bit 1 a;
             a2 = (if a1 AND push_bit 4 1 \<noteq> 0 then a1 XOR 0b10011 else a1)
         in gfMult_loop a2 (drop_bit 1 b) product1)
      else product)"
  by pat_completeness auto
termination
proof (relation "measure (\<lambda>(a, b, product). unat b)", goal_cases)
  case 1
  show ?case by simp
next
  case (2 a b product product1 a1 a2)
  then have "0 < unat b"
    by (simp add: unat_gt_0)
  then have "unat b div 2 < unat b"
    by simp
  then show ?case
    by (simp add: drop_bit_eq_div unat_div)
qed

definition gfMult :: "u8 \<Rightarrow> u8 \<Rightarrow> u8" where
  "gfMult a b = gfMult_loop (a AND 0x0F) (b AND 0x0F) 0"

fun addRoundKey :: "u8 list \<Rightarrow> u8 list \<Rightarrow> u8 list option" where
  "addRoundKey (a0 # a1 # a2 # a3 # _) (b0 # b1 # b2 # b3 # _) =
     Some [a0 XOR b0, a1 XOR b1, a2 XOR b2, a3 XOR b3]"
| "addRoundKey _ _ = None"

fun subNibbles :: "u8 list \<Rightarrow> u8 list \<Rightarrow> u8 list option" where
  "subNibbles sbox (s0 # s1 # s2 # s3 # _) =
     (case (tab sbox s0, tab sbox s1, tab sbox s2, tab sbox s3) of
        (Some r0, Some r1, Some r2, Some r3) \<Rightarrow> Some [r0, r1, r2, r3]
      | _ \<Rightarrow> None)"
| "subNibbles sbox _ = None"

fun shiftRows :: "u8 list \<Rightarrow> u8 list option" where
  "shiftRows (s0 # s1 # s2 # s3 # _) = Some [s0, s1, s3, s2]"
| "shiftRows _ = None"

fun mixColumns :: "u8 list \<Rightarrow> u8 list option" where
  "mixColumns (s0 # s1 # s2 # s3 # _) =
     Some [s0 XOR gfMult 4 s2, s1 XOR gfMult 4 s3, s2 XOR gfMult 4 s0, s3 XOR gfMult 4 s1]"
| "mixColumns _ = None"

fun inverseMixColumns :: "u8 list \<Rightarrow> u8 list option" where
  "inverseMixColumns (s0 # s1 # s2 # s3 # _) =
     Some [gfMult 9 s0 XOR gfMult 2 s2, gfMult 9 s1 XOR gfMult 2 s3,
           gfMult 9 s2 XOR gfMult 2 s0, gfMult 9 s3 XOR gfMult 2 s1]"
| "inverseMixColumns _ = None"

text \<open>The class: its three data members, set by the constructor from \<open>keyExpansion\<close>.\<close>

record SimplifiedAES_obj =
  preRoundKey :: "u8 list"
  round1Key :: "u8 list"
  round2Key :: "u8 list"

definition SimplifiedAES :: "u16 \<Rightarrow> SimplifiedAES_obj option" where
  "SimplifiedAES key =
     (case keyExpansion key of None \<Rightarrow> None
      | Some (k0, k1, k2) \<Rightarrow>
          Some \<lparr>preRoundKey = k0, round1Key = k1, round2Key = k2\<rparr>)"

definition Encrypt :: "SimplifiedAES_obj \<Rightarrow> u16 \<Rightarrow> u16 option" where
  "Encrypt this plaintext =
     Option.bind (addRoundKey (preRoundKey this) (intToState plaintext)) (\<lambda>state.
     Option.bind (subNibbles AES_sBox state) (\<lambda>t.
     Option.bind (shiftRows t) (\<lambda>t.
     Option.bind (mixColumns t) (\<lambda>state.
     Option.bind (addRoundKey (round1Key this) state) (\<lambda>state.
     Option.bind (subNibbles AES_sBox state) (\<lambda>t.
     Option.bind (shiftRows t) (\<lambda>state.
     Option.bind (addRoundKey (round2Key this) state) (\<lambda>state.
     stateToInt state))))))))"

definition Decrypt :: "SimplifiedAES_obj \<Rightarrow> u16 \<Rightarrow> u16 option" where
  "Decrypt this ciphertext =
     Option.bind (addRoundKey (round2Key this) (intToState ciphertext)) (\<lambda>state.
     Option.bind (shiftRows state) (\<lambda>t.
     Option.bind (subNibbles AES_sBoxI t) (\<lambda>state.
     Option.bind (addRoundKey (round1Key this) state) (\<lambda>t.
     Option.bind (inverseMixColumns t) (\<lambda>state.
     Option.bind (shiftRows state) (\<lambda>t.
     Option.bind (subNibbles AES_sBoxI t) (\<lambda>state.
     Option.bind (addRoundKey (preRoundKey this) state) (\<lambda>state.
     stateToInt state))))))))"

text \<open>A state of four nibbles: what \<open>intToState\<close> returns and every layer keeps.\<close>

definition nibble_state :: "u8 list \<Rightarrow> bool" where
  "nibble_state s = (length s = 4 \<and> list_all (\<lambda>x. x < 16) s)"

subsection \<open>What the specification says, for comparison with the code\<close>

text \<open>
  Multiplication in the field of 16 elements with the reduction polynomial
  \<open>x^4 + x + 1\<close>, written from the mathematics and not from the loop of \<open>gfMult\<close>.
  A polynomial over GF(2) of degree below 8 is the byte of its coefficients. The product
  of two polynomials of degree below 4 is the sum (\<open>XOR\<close>) of the shifted copies of
  \<open>a\<close> for the coefficients of \<open>b\<close>; its remainder modulo \<open>0b10011\<close> cancels the
  coefficients of \<open>x^6\<close>, \<open>x^5\<close> and \<open>x^4\<close> in turn.
\<close>

definition spec_poly_mult :: "u8 \<Rightarrow> u8 \<Rightarrow> u8" where
  "spec_poly_mult a b =
     (if bit b 0 then a else 0) XOR (if bit b 1 then push_bit 1 a else 0)
     XOR (if bit b 2 then push_bit 2 a else 0) XOR (if bit b 3 then push_bit 3 a else 0)"

definition spec_poly_mod :: "u8 \<Rightarrow> u8" where
  "spec_poly_mod p =
     (let p6 = (if bit p 6 then p XOR push_bit 2 0b10011 else p);
          p5 = (if bit p6 5 then p6 XOR push_bit 1 0b10011 else p6)
      in if bit p5 4 then p5 XOR 0b10011 else p5)"

definition spec_gf16_mult :: "u8 \<Rightarrow> u8 \<Rightarrow> u8" where
  "spec_gf16_mult a b = spec_poly_mod (spec_poly_mult a b)"

text \<open>
  The key expansion's helpers as the specification words them: \<open>rotateNibbles\<close> swaps
  the two 4-bit halves of a byte, \<open>substitute\<close> applies the S-box to each nibble, and
  \<open>hi\<parallel>lo\<close> is the 16-bit value with high byte \<open>hi\<close> and low byte \<open>lo\<close>.
\<close>

definition spec_rotateNibbles :: "u8 \<Rightarrow> u8" where
  "spec_rotateNibbles w = of_nat ((unat w mod 16) * 16 + unat w div 16)"

definition spec_substitute :: "u8 \<Rightarrow> u8" where
  "spec_substitute w =
     of_nat (unat (AES_sBox ! (unat w div 16)) * 16 + unat (AES_sBox ! (unat w mod 16)))"

definition spec_concat :: "u8 \<Rightarrow> u8 \<Rightarrow> u16" where
  "spec_concat hi lo = of_nat (unat hi * 256 + unat lo)"

text \<open>
  The state of \<open>hi\<parallel>lo\<close>, written from the layout and not from \<open>intToState\<close>: with the
  four nibbles of the 16-bit value numbered \<open>n0\<close> (most significant) to \<open>n3\<close>, the
  state is the list \<open>[n0, n2, n1, n3]\<close>, that is the high nibble of \<open>hi\<close>, the high nibble
  of \<open>lo\<close>, the low nibble of \<open>hi\<close> and the low nibble of \<open>lo\<close>.
\<close>

definition spec_state :: "u8 \<Rightarrow> u8 \<Rightarrow> u8 list" where
  "spec_state hi lo =
     [of_nat (unat hi div 16), of_nat (unat lo div 16),
      of_nat (unat hi mod 16), of_nat (unat lo mod 16)]"

section \<open>Cipher A: src/01\_des/des.cpp\<close>

text \<open>
  The bit vectors are \<open>vector<int>\<close>. The entries the cipher works on are bits and table
  entries below 4, far from the limits of a 32-bit \<open>int\<close>, so they are \<open>int\<close> here.
\<close>

definition P10 :: "int list" where
  "P10 = [3, 5, 2, 7, 4, 10, 1, 9, 8, 6]"

definition P8 :: "int list" where
  "P8 = [6, 3, 7, 4, 8, 5, 10, 9]"

definition P4 :: "int list" where
  "P4 = [2, 4, 3, 1]"

definition IP :: "int list" where
  "IP = [2, 6, 3, 1, 4, 8, 5, 7]"

definition IP_INV :: "int list" where
  "IP_INV = [4, 1, 3, 5, 7, 2, 8, 6]"

definition E_P :: "int list" where
  "E_P = [4, 1, 2, 3, 2, 3, 4, 1]"

definition S0 :: "int list list" where
  "S0 = [[1, 0, 3, 2], [3, 2, 1, 0], [0, 2, 1, 3], [3, 1, 3, 2]]"

definition S1 :: "int list list" where
  "S1 = [[0, 1, 2, 3], [2, 0, 1, 3], [3, 0, 1, 0], [2, 1, 0, 3]]"

text \<open>
  \<open>permute\<close>: \<open>result[i] = arr[perm[i] - 1]\<close> for \<open>i < size\<close>. Neither read is checked by
  the source; a read outside \<open>perm\<close> or \<open>arr\<close> is \<open>None\<close>.
\<close>

definition permute :: "int list \<Rightarrow> int list \<Rightarrow> nat \<Rightarrow> int list option" where
  "permute arr perm n =
     those (map (\<lambda>i. case at perm (int i) of None \<Rightarrow> None | Some p \<Rightarrow> at arr (p - 1))
                [0..<n])"

definition leftShift :: "int list \<Rightarrow> nat \<Rightarrow> int list" where
  "leftShift bits shifts =
     map (\<lambda>i. bits ! ((i + shifts) mod length bits)) [0..<length bits]"

text \<open>\<open>XOR\<close> of the source; the loop runs over \<open>a\<close> and reads \<open>b\<close> unchecked.\<close>

definition XOR_vec :: "int list \<Rightarrow> int list \<Rightarrow> int list option" where
  "XOR_vec a b =
     those (map (\<lambda>i. case at b (int i) of None \<Rightarrow> None | Some y \<Rightarrow> Some ((a ! i) XOR y))
                [0..<length a])"

text \<open>\<open>intToBin\<close> fills \<open>bits[size - 1]\<close> down to \<open>bits[0]\<close>, shifting \<open>val\<close> right each time.\<close>

fun intToBin :: "int \<Rightarrow> nat \<Rightarrow> int list" where
  "intToBin val 0 = []"
| "intToBin val (Suc n) = intToBin (drop_bit 1 val) n @ [val AND 1]"

definition sBox :: "int list \<Rightarrow> int list list \<Rightarrow> int list option" where
  "sBox input sMatrix =
     (case (at input 0, at input 3, at input 1, at input 2) of
        (Some i0, Some i3, Some i1, Some i2) \<Rightarrow>
          (let row = push_bit 1 i0 OR i3;
               col = push_bit 1 i1 OR i2
           in case at sMatrix row of None \<Rightarrow> None
              | Some r \<Rightarrow>
                (case at r col of None \<Rightarrow> None
                 | Some val \<Rightarrow> Some (intToBin val 2)))
      | _ \<Rightarrow> None)"

definition generateKeys :: "int list \<Rightarrow> (int list \<times> int list) option" where
  "generateKeys key =
     (case permute key P10 10 of None \<Rightarrow> None
      | Some p10 \<Rightarrow>
        (let left = take 5 p10;
             right = drop 5 p10;
             left1 = leftShift left 1;
             right1 = leftShift right 1;
             combined = left1 @ right1
         in case permute combined P8 8 of None \<Rightarrow> None
            | Some k1 \<Rightarrow>
              (let left2 = leftShift left1 2;
                   right2 = leftShift right1 2;
                   combined2 = left2 @ right2
               in case permute combined2 P8 8 of None \<Rightarrow> None
                  | Some k2 \<Rightarrow> Some (k1, k2))))"

definition functionF :: "int list \<Rightarrow> int list \<Rightarrow> int list \<Rightarrow> int list option" where
  "functionF left right key =
     (case permute right E_P 8 of None \<Rightarrow> None
      | Some temp0 \<Rightarrow>
        (case XOR_vec temp0 key of None \<Rightarrow> None
         | Some temp \<Rightarrow>
           (let left4 = take 4 temp;
                right4 = drop 4 temp
            in case sBox left4 S0 of None \<Rightarrow> None
               | Some s0_out \<Rightarrow>
                 (case sBox right4 S1 of None \<Rightarrow> None
                  | Some s1_out \<Rightarrow>
                    (case permute (s0_out @ s1_out) P4 4 of None \<Rightarrow> None
                     | Some combined \<Rightarrow>
                       (case XOR_vec left combined of None \<Rightarrow> None
                        | Some result \<Rightarrow> Some (result @ right)))))))"

definition sdes :: "int list \<Rightarrow> int list \<Rightarrow> bool \<Rightarrow> int list option" where
  "sdes input key decrypt =
     (case generateKeys key of None \<Rightarrow> None
      | Some (ka, kb) \<Rightarrow>
        (let k1 = (if decrypt then kb else ka);
             k2 = (if decrypt then ka else kb)
         in case permute input IP 8 of None \<Rightarrow> None
            | Some ip \<Rightarrow>
              (let left = take 4 ip;
                   right = drop 4 ip
               in case functionF left right k1 of None \<Rightarrow> None
                  | Some f1 \<Rightarrow>
                    (let swapped_left = drop 4 f1;
                         swapped_right = take 4 f1
                     in case functionF swapped_left swapped_right k2 of None \<Rightarrow> None
                        | Some f2 \<Rightarrow> permute f2 IP_INV 8))))"

text \<open>
  \<open>parseBits\<close>, the only width check of the program: anything but \<open>expected\<close> characters
  \<open>0\<close> or \<open>1\<close> prints a message and returns the empty vector.
\<close>

definition parseBits :: "string \<Rightarrow> nat \<Rightarrow> int list" where
  "parseBits s expected =
     (if length s \<noteq> expected \<or> list_ex (\<lambda>c. c \<noteq> CHR ''0'' \<and> c \<noteq> CHR ''1'') s then []
      else map (\<lambda>c. int (of_char c) - int (of_char (CHR ''0''))) s)"

text \<open>
  Choice 4 of the menu in \<open>main\<close>: with an empty input or key it prints
  ``Please enter input and key first.'' and does not call \<open>sdes\<close> (\<open>None\<close> here);
  otherwise it prints the result of \<open>sdes\<close>.
\<close>

definition main_choice4 :: "int list \<Rightarrow> int list \<Rightarrow> bool \<Rightarrow> int list option option" where
  "main_choice4 input key decrypt =
     (if input = [] \<or> key = [] then None else Some (sdes input key decrypt))"

subsection \<open>What the specification says, for comparison with the code\<close>

text \<open>Applying a table of 1-based positions, as the cipher literature writes it.\<close>

definition spec_apply_table :: "int list \<Rightarrow> int list \<Rightarrow> int list" where
  "spec_apply_table table bits = map (\<lambda>p. bits ! (nat p - 1)) table"

section \<open>Modular exponentiation: src/04.2\_diffie\_hellman/diffie\_hellman.cpp\<close>

text \<open>
  \<open>ll\<close> is \<open>long long\<close>, 64 bits and signed. A product outside its range is undefined
  behaviour (\<open>None\<close>), and so is a remainder by zero. \<open>%\<close> truncates towards zero.
\<close>

definition LL_MAX :: int where
  "LL_MAX = 2 ^ 63 - 1"

definition LL_MIN :: int where
  "LL_MIN = - (2 ^ 63)"

definition ll_mul :: "int \<Rightarrow> int \<Rightarrow> int option" where
  "ll_mul a b = (if LL_MIN \<le> a * b \<and> a * b \<le> LL_MAX then Some (a * b) else None)"

definition ll_rem :: "int \<Rightarrow> int \<Rightarrow> int option" where
  "ll_rem a b =
     (if b = 0 \<or> (a = LL_MIN \<and> b = - 1) then None
      else Some (sgn a * (\<bar>a\<bar> mod \<bar>b\<bar>)))"

text \<open>
  The \<open>while (exp > 0)\<close> loop of \<open>power\<close>: one call is one test of the loop condition,
  the arguments are the variables \<open>result\<close>, \<open>base\<close> and \<open>exp\<close>.
\<close>

function power_loop :: "int \<Rightarrow> int \<Rightarrow> int \<Rightarrow> int \<Rightarrow> int option" where
  "power_loop result base exp modulus =
     (if exp > 0 then
        (case (if ll_rem exp 2 = Some 1
               then Option.bind (ll_mul result base) (\<lambda>p. ll_rem p modulus)
               else Some result) of
           None \<Rightarrow> None
         | Some result1 \<Rightarrow>
           (case Option.bind (ll_mul base base) (\<lambda>p. ll_rem p modulus) of
              None \<Rightarrow> None
            | Some base1 \<Rightarrow> power_loop result1 base1 (drop_bit 1 exp) modulus))
      else Some result)"
  by pat_completeness auto
termination
  by (relation "measure (\<lambda>(result, base, exp, modulus). nat exp)")
     (auto simp: drop_bit_eq_div)

definition power :: "int \<Rightarrow> int \<Rightarrow> int \<Rightarrow> int option" where
  "power base exp modulus =
     (case ll_rem base modulus of None \<Rightarrow> None
      | Some base1 \<Rightarrow> power_loop 1 base1 exp modulus)"

section \<open>Cipher B: nibbles and the field multiplication\<close>

lemma m15: "(15 :: 'a :: len word) = mask 4"
  by (simp add: mask_eq_exp_minus_1)

lemma nib_and: "(x :: u8) < 16 \<Longrightarrow> x AND 15 = x"
  by (simp add: m15 less_mask_eq)

lemma and15: "(x :: u8) AND 15 < 16"
  using and_mask_less_size [of 4 x] by (simp add: m15 word_size)

lemma and15_mod: "(x :: u8) AND 15 = x mod 16"
  using take_bit_eq_mod [of 4 x] take_bit_eq_mask [of 4 x] by (simp add: m15)

lemma nat_lt16: "(n::nat) < 16 \<Longrightarrow> n \<in> {0,1,2,3,4,5,6,7,8,9,10,11,12,13,14,15}"
  by (simp, arith)

lemma nib_cases: "(x :: u8) < 16 \<Longrightarrow> x \<in> {0,1,2,3,4,5,6,7,8,9,10,11,12,13,14,15}"
proof -
  assume "x < 16"
  then have "unat x < 16" by (simp add: word_less_nat_alt)
  then have "unat x \<in> {0,1,2,3,4,5,6,7,8,9,10,11,12,13,14,15}" by (rule nat_lt16)
  then have "of_nat (unat x) \<in> (of_nat ` {0,1,2,3,4,5,6,7,8,9,10,11,12,13,14,15} :: u8 set)"
    by (rule imageI)
  then show ?thesis by simp
qed

lemma nib_xor: "(x :: u8) < 16 \<Longrightarrow> y < 16 \<Longrightarrow> x XOR y < 16"
proof -
  assume "x < 16" "y < 16"
  then have "x XOR y = (x XOR y) AND 15"
    using nib_and [of x] nib_and [of y] by (metis bit.conj_xor_distrib2)
  then show ?thesis using and15 [of "x XOR y"] by simp
qed

lemma gf_table:
  "\<forall>x \<in> {0,1,2,3,4,5,6,7,8,9,10,11,12,13,14,15::u8}. \<forall>y \<in> {0,1,2,3,4,5,6,7,8,9,10,11,12,13,14,15::u8}. 
     gfMult_loop x y 0 = spec_gf16_mult x y \<and> gfMult_loop x y 0 < 16"
  by (simp add: spec_gf16_mult_def spec_poly_mod_def spec_poly_mult_def)

lemma gfMult_nib: "gfMult a b = spec_gf16_mult (a AND 15) (b AND 15) \<and> gfMult a b < 16"
  unfolding gfMult_def
  using gf_table nib_cases [OF and15 [of a]] nib_cases [OF and15 [of b]] by blast

lemma spec_table: "\<forall>x \<in> {0,1,2,3,4,5,6,7,8,9,10,11,12,13,14,15::u8}. \<forall>y \<in> {0,1,2,3,4,5,6,7,8,9,10,11,12,13,14,15::u8}. spec_gf16_mult x y = spec_gf16_mult y x \<and> spec_gf16_mult x 0 = 0"
  by (simp add: spec_gf16_mult_def spec_poly_mod_def spec_poly_mult_def)

text \<open>
  The specification's product behaves as the field's multiplication should: 1 is neutral,
  every nibble but 0 has an inverse, and \<open>x * x^3 = x^4\<close> reduces to \<open>x + 1\<close>.
\<close>

lemma spec_gf16_mult_sanity:
  "\<forall>x \<in> {0,1,2,3,4,5,6,7,8,9,10,11,12,13,14,15::u8}. spec_gf16_mult x 1 = x"
  "spec_gf16_mult 1 1 = 1" "spec_gf16_mult 2 9 = 1" "spec_gf16_mult 3 14 = 1"
  "spec_gf16_mult 4 13 = 1" "spec_gf16_mult 5 11 = 1" "spec_gf16_mult 6 7 = 1"
  "spec_gf16_mult 8 15 = 1" "spec_gf16_mult 10 12 = 1" "spec_gf16_mult 2 8 = 3"
  by (simp_all add: spec_gf16_mult_def spec_poly_mod_def spec_poly_mult_def)

text \<open>
  C5. For all bytes \<open>a\<close> and \<open>b\<close>, \<open>gfMult a b\<close> is the product of \<open>a mod 16\<close> and
  \<open>b mod 16\<close> in GF(16) with the reduction polynomial \<open>x^4 + x + 1\<close>; in particular
  \<open>gfMult a 0 = 0\<close>, \<open>gfMult\<close> is commutative, and the result is below 16.
\<close>

theorem gfMult_is_gf16_product:
  "gfMult a b = spec_gf16_mult (a mod 16) (b mod 16)
   \<and> gfMult a 0 = 0 \<and> gfMult a b = gfMult b a \<and> gfMult a b < 16"
proof -
  have 1: "gfMult a b = spec_gf16_mult (a mod 16) (b mod 16)"
    using gfMult_nib [of a b] by (simp add: and15_mod)
  have 2: "gfMult a 0 = 0"
    by (simp add: gfMult_def)
  have "spec_gf16_mult (a AND 15) (b AND 15) = spec_gf16_mult (b AND 15) (a AND 15)"
    using spec_table nib_cases [OF and15 [of a]] nib_cases [OF and15 [of b]] by blast
  then have 3: "gfMult a b = gfMult b a"
    using gfMult_nib [of a b] gfMult_nib [of b a] by simp
  have 4: "gfMult a b < 16"
    using gfMult_nib [of a b] by (rule conjunct2)
  from 1 2 3 4 show ?thesis by (intro conjI)
qed

theorem gfMult_is_gf16_product_witness:
  "gfMult 0x57 0x0B = spec_gf16_mult (0x57 mod 16) (0x0B mod 16)
   \<and> gfMult 0x57 0 = 0 \<and> gfMult 0x57 0x0B = gfMult 0x0B 0x57 \<and> gfMult 0x57 0x0B < 16"
  by (rule gfMult_is_gf16_product [of "0x57" "0x0B"])

section \<open>Cipher B: the layers on states of four nibbles\<close>

lemma gfMult_2_table:
  "gfMult 2 0 = 0"
  "gfMult 2 1 = 2"
  "gfMult 2 2 = 4"
  "gfMult 2 3 = 6"
  "gfMult 2 4 = 8"
  "gfMult 2 5 = 10"
  "gfMult 2 6 = 12"
  "gfMult 2 7 = 14"
  "gfMult 2 8 = 3"
  "gfMult 2 9 = 1"
  "gfMult 2 10 = 7"
  "gfMult 2 11 = 5"
  "gfMult 2 12 = 11"
  "gfMult 2 13 = 9"
  "gfMult 2 14 = 15"
  "gfMult 2 15 = 13"
  by (simp_all add: gfMult_def)

lemma gfMult_4_table:
  "gfMult 4 0 = 0"
  "gfMult 4 1 = 4"
  "gfMult 4 2 = 8"
  "gfMult 4 3 = 12"
  "gfMult 4 4 = 3"
  "gfMult 4 5 = 7"
  "gfMult 4 6 = 11"
  "gfMult 4 7 = 15"
  "gfMult 4 8 = 6"
  "gfMult 4 9 = 2"
  "gfMult 4 10 = 14"
  "gfMult 4 11 = 10"
  "gfMult 4 12 = 5"
  "gfMult 4 13 = 1"
  "gfMult 4 14 = 13"
  "gfMult 4 15 = 9"
  by (simp_all add: gfMult_def)

lemma gfMult_9_table:
  "gfMult 9 0 = 0"
  "gfMult 9 1 = 9"
  "gfMult 9 2 = 1"
  "gfMult 9 3 = 8"
  "gfMult 9 4 = 2"
  "gfMult 9 5 = 11"
  "gfMult 9 6 = 3"
  "gfMult 9 7 = 10"
  "gfMult 9 8 = 4"
  "gfMult 9 9 = 13"
  "gfMult 9 10 = 5"
  "gfMult 9 11 = 12"
  "gfMult 9 12 = 6"
  "gfMult 9 13 = 15"
  "gfMult 9 14 = 7"
  "gfMult 9 15 = 14"
  by (simp_all add: gfMult_def)

lemma mix_table:
  "\<forall>x \<in> {0,1,2,3,4,5,6,7,8,9,10,11,12,13,14,15::u8}. \<forall>y \<in> {0,1,2,3,4,5,6,7,8,9,10,11,12,13,14,15::u8}. 
     gfMult 9 (x XOR gfMult 4 y) XOR gfMult 2 (y XOR gfMult 4 x) = x
   \<and> (gfMult 9 x XOR gfMult 2 y) XOR gfMult 4 (gfMult 9 y XOR gfMult 2 x) = x
   \<and> x XOR gfMult 4 y < 16 \<and> gfMult 9 x XOR gfMult 2 y < 16"
  by (simp add: gfMult_2_table gfMult_4_table gfMult_9_table)

lemma mix_pair: "x < 16 \<Longrightarrow> y < 16 \<Longrightarrow>
     gfMult 9 (x XOR gfMult 4 y) XOR gfMult 2 (y XOR gfMult 4 x) = x
   \<and> (gfMult 9 x XOR gfMult 2 y) XOR gfMult 4 (gfMult 9 y XOR gfMult 2 x) = x
   \<and> x XOR gfMult 4 y < 16 \<and> gfMult 9 x XOR gfMult 2 y < 16"
  using mix_table nib_cases [of x] nib_cases [of y] by blast

lemma nibble_stateE:
  assumes "nibble_state s"
  obtains a b c d where "s = [a, b, c, d]" "a < 16" "b < 16" "c < 16" "d < 16"
proof -
  from assms have "length s = 4" by (simp add: nibble_state_def)
  then obtain a b c d where s: "s = [a, b, c, d]"
    by (auto simp: numeral_eq_Suc length_Suc_conv)
  with assms that show thesis by (simp add: nibble_state_def)
qed

lemma nibble_stateI: "a < 16 \<Longrightarrow> b < 16 \<Longrightarrow> c < 16 \<Longrightarrow> d < 16 \<Longrightarrow> nibble_state [a, b, c, d]"
  by (simp add: nibble_state_def)

lemma tab_table:
  "\<forall>x \<in> {0,1,2,3,4,5,6,7,8,9,10,11,12,13,14,15::u8}.
     (\<exists>y. tab AES_sBox x = Some y \<and> y < 16 \<and> tab AES_sBoxI y = Some x)"
  by (simp add: tab_def at_def AES_sBox_def AES_sBoxI_def)

lemma tab_nib: "x < 16 \<Longrightarrow> \<exists>y. tab AES_sBox x = Some y \<and> y < 16 \<and> tab AES_sBoxI y = Some x"
  using tab_table nib_cases [of x] by blast

lemma addRoundKey_nib:
  assumes "nibble_state a" "nibble_state b"
  shows "\<exists>c. addRoundKey a b = Some c \<and> nibble_state c \<and> addRoundKey a c = Some b"
proof -
  from assms(1) obtain a0 a1 a2 a3 where a: "a = [a0, a1, a2, a3]" "a0 < 16" "a1 < 16" "a2 < 16" "a3 < 16"
    by (rule nibble_stateE)
  from assms(2) obtain b0 b1 b2 b3 where b: "b = [b0, b1, b2, b3]" "b0 < 16" "b1 < 16" "b2 < 16" "b3 < 16"
    by (rule nibble_stateE)
  have "nibble_state [a0 XOR b0, a1 XOR b1, a2 XOR b2, a3 XOR b3]"
    using a b by (intro nibble_stateI nib_xor)
  then show ?thesis using a(1) b(1) by (simp add: xor.assoc [symmetric])
qed

lemma subNibbles_nib:
  assumes "nibble_state s"
  shows "\<exists>t. subNibbles AES_sBox s = Some t \<and> nibble_state t \<and> subNibbles AES_sBoxI t = Some s"
proof -
  from assms obtain a b c d where s: "s = [a, b, c, d]" "a < 16" "b < 16" "c < 16" "d < 16"
    by (rule nibble_stateE)
  from tab_nib [OF s(2)] obtain a' where a: "tab AES_sBox a = Some a'" "a' < 16" "tab AES_sBoxI a' = Some a" by blast
  from tab_nib [OF s(3)] obtain b' where b: "tab AES_sBox b = Some b'" "b' < 16" "tab AES_sBoxI b' = Some b" by blast
  from tab_nib [OF s(4)] obtain c' where c: "tab AES_sBox c = Some c'" "c' < 16" "tab AES_sBoxI c' = Some c" by blast
  from tab_nib [OF s(5)] obtain d' where d: "tab AES_sBox d = Some d'" "d' < 16" "tab AES_sBoxI d' = Some d" by blast
  show ?thesis using s(1) a b c d by (simp add: nibble_state_def)
qed

lemma shiftRows_nib:
  assumes "nibble_state s"
  shows "\<exists>t. shiftRows s = Some t \<and> nibble_state t \<and> shiftRows t = Some s"
proof -
  from assms obtain a b c d where s: "s = [a, b, c, d]" "a < 16" "b < 16" "c < 16" "d < 16"
    by (rule nibble_stateE)
  then show ?thesis by (simp add: nibble_state_def)
qed

lemma mixColumns_nib:
  assumes "nibble_state s"
  shows "\<exists>t. mixColumns s = Some t \<and> nibble_state t \<and> inverseMixColumns t = Some s"
proof -
  from assms obtain a b c d where s: "s = [a, b, c, d]" "a < 16" "b < 16" "c < 16" "d < 16"
    by (rule nibble_stateE)
  show ?thesis
    using s(1) mix_pair [OF s(2) s(4)] mix_pair [OF s(4) s(2)] mix_pair [OF s(3) s(5)] mix_pair [OF s(5) s(3)]
    by (simp add: nibble_state_def)
qed

lemma inverseMixColumns_nib:
  assumes "nibble_state s"
  shows "\<exists>t. inverseMixColumns s = Some t \<and> nibble_state t \<and> mixColumns t = Some s"
proof -
  from assms obtain a b c d where s: "s = [a, b, c, d]" "a < 16" "b < 16" "c < 16" "d < 16"
    by (rule nibble_stateE)
  show ?thesis
    using s(1) mix_pair [OF s(2) s(4)] mix_pair [OF s(4) s(2)] mix_pair [OF s(3) s(5)] mix_pair [OF s(5) s(3)]
    by (simp add: nibble_state_def)
qed

section \<open>Cipher B: the constants of the diffusion layer\<close>

lemma gfMult_const_nib: "x < 16 \<Longrightarrow> gfMult 4 x = spec_gf16_mult 4 x
    \<and> gfMult 9 x = spec_gf16_mult 9 x \<and> gfMult 2 x = spec_gf16_mult 2 x"
  using gfMult_nib [of 4 x] gfMult_nib [of 9 x] gfMult_nib [of 2 x] by (simp add: nib_and)

text \<open>
  C6, as the code has it. On every state of four nibbles, \<open>mixColumns\<close> multiplies by the
  constants 1 and 4 only: each output nibble is the input nibble at the same position
  \<open>XOR\<close> 4 times the other nibble of its column. \<open>inverseMixColumns\<close> is the
  combination of 9 times the nibble at the same position and 2 times the other nibble of
  the column. The two layers are inverses of each other.
\<close>

theorem mixColumns_constants:
  assumes "length s = 4" "list_all (\<lambda>x. x < 16) s"
  shows "mixColumns s =
           Some [s ! 0 XOR spec_gf16_mult 4 (s ! 2), s ! 1 XOR spec_gf16_mult 4 (s ! 3),
                 s ! 2 XOR spec_gf16_mult 4 (s ! 0), s ! 3 XOR spec_gf16_mult 4 (s ! 1)]
         \<and> inverseMixColumns s =
           Some [spec_gf16_mult 9 (s ! 0) XOR spec_gf16_mult 2 (s ! 2),
                 spec_gf16_mult 9 (s ! 1) XOR spec_gf16_mult 2 (s ! 3),
                 spec_gf16_mult 9 (s ! 2) XOR spec_gf16_mult 2 (s ! 0),
                 spec_gf16_mult 9 (s ! 3) XOR spec_gf16_mult 2 (s ! 1)]
         \<and> Option.bind (mixColumns s) inverseMixColumns = Some s
         \<and> Option.bind (inverseMixColumns s) mixColumns = Some s"
proof -
  from assms have n: "nibble_state s" by (simp add: nibble_state_def)
  then obtain a b c d where s: "s = [a, b, c, d]" "a < 16" "b < 16" "c < 16" "d < 16"
    by (rule nibble_stateE)
  have 1: "mixColumns s =
           Some [s ! 0 XOR spec_gf16_mult 4 (s ! 2), s ! 1 XOR spec_gf16_mult 4 (s ! 3),
                 s ! 2 XOR spec_gf16_mult 4 (s ! 0), s ! 3 XOR spec_gf16_mult 4 (s ! 1)]"
    using s by (simp add: gfMult_const_nib)
  have 2: "inverseMixColumns s =
           Some [spec_gf16_mult 9 (s ! 0) XOR spec_gf16_mult 2 (s ! 2),
                 spec_gf16_mult 9 (s ! 1) XOR spec_gf16_mult 2 (s ! 3),
                 spec_gf16_mult 9 (s ! 2) XOR spec_gf16_mult 2 (s ! 0),
                 spec_gf16_mult 9 (s ! 3) XOR spec_gf16_mult 2 (s ! 1)]"
    using s by (simp add: gfMult_const_nib)
  have 3: "Option.bind (mixColumns s) inverseMixColumns = Some s"
    using mixColumns_nib [OF n] by auto
  have 4: "Option.bind (inverseMixColumns s) mixColumns = Some s"
    using inverseMixColumns_nib [OF n] by auto
  from 1 2 3 4 show ?thesis by (intro conjI)
qed

theorem mixColumns_constants_witness:
  "length [0x6, 0x4, 0xC, 0x0 :: u8] = 4 \<and> list_all (\<lambda>x. x < 16) [0x6, 0x4, 0xC, 0x0 :: u8]
   \<and> mixColumns [0x6, 0x4, 0xC, 0x0] = Some [0x3, 0x4, 0x7, 0x3]
   \<and> inverseMixColumns [0x3, 0x4, 0x7, 0x3] = Some [0x6, 0x4, 0xC, 0x0]
   \<and> Option.bind (mixColumns [0x6, 0x4, 0xC, 0x0]) inverseMixColumns = Some [0x6, 0x4, 0xC, 0x0]"
proof -
  have h: "length [0x6, 0x4, 0xC, 0x0 :: u8] = 4" "list_all (\<lambda>x. x < 16) [0x6, 0x4, 0xC, 0x0 :: u8]"
    by simp_all
  show ?thesis
    using h mixColumns_constants [OF h]
    by (simp add: gfMult_2_table gfMult_4_table gfMult_9_table)
qed

text \<open>
  C6, as the specification words it, fails: \<open>mixColumns\<close> does not multiply by 9. On the
  state \<open>[1, 0, 0, 0]\<close> the first output nibble is 1, which is not 4 times an input nibble
  \<open>XOR\<close> 9 times an input nibble, whichever input nibbles (0 or 1) are taken.
\<close>

theorem mixColumns_counterexample:
  "mixColumns [1, 0, 0, 0] = Some [1, 0, 4, 0]
   \<and> gfMult 4 0 XOR gfMult 9 0 \<noteq> 1 \<and> gfMult 4 1 XOR gfMult 9 0 \<noteq> 1
   \<and> gfMult 4 0 XOR gfMult 9 1 \<noteq> 1 \<and> gfMult 4 1 XOR gfMult 9 1 \<noteq> 1"
  by (simp add: gfMult_4_table gfMult_9_table)

section \<open>Cipher B: key expansion\<close>

lemma nib_bit: "(x :: u8) < 16 \<Longrightarrow> bit x n \<Longrightarrow> n < 4"
proof -
  assume "x < 16" "bit x n"
  then have "bit (x AND mask 4) n" using nib_and [of x] by (simp add: m15)
  then show ?thesis by (simp add: bit_simps)
qed

lemma nib_pack:
  fixes x hi :: u8
  assumes "hi < 16"
  shows "push_bit 4 x OR hi = of_nat (unat x * 16 + unat hi)"
proof -
  have "push_bit 4 x + hi = push_bit 4 x OR hi"
  proof (rule disjunctive_add)
    fix n
    show "\<not> bit (push_bit 4 x) n \<or> \<not> bit hi n"
      using nib_bit [OF assms, of n] by (auto simp add: bit_simps)
  qed
  then show ?thesis by (simp add: push_bit_eq_mult)
qed

lemma unat_drop4: "unat (drop_bit 4 (w :: u8)) = unat w div 16"
  by (simp add: drop_bit_eq_div unat_div)

lemma drop4_nib: "drop_bit 4 (w :: u8) < 16"
proof -
  have "unat w < 256" using unsigned_less [of w] by simp
  then have "unat w div 16 < 16" by simp
  then show ?thesis by (simp add: word_less_nat_alt unat_drop4)
qed

lemma unat_and15: "unat ((a :: u8) AND 15) = unat a mod 16"
  by (simp add: and15_mod unat_mod)

lemma rotWord_spec: "rotWord w = spec_rotateNibbles w"
proof -
  have "drop_bit 4 (w AND push_bit 4 (mask 4)) = drop_bit 4 w"
    by (rule bit_word_eqI) (auto simp add: bit_simps dest: bit_imp_le_length)
  moreover have "push_bit 4 (mask 4) = (0xF0 :: u8)"
    by (simp add: mask_eq_exp_minus_1)
  ultimately have "drop_bit 4 (w AND 0xF0) = drop_bit 4 w"
    by (simp only:)
  then have "rotWord w = push_bit 4 (w AND 15) OR drop_bit 4 w"
    by (simp add: rotWord_def)
  also have "\<dots> = of_nat (unat (w AND 15) * 16 + unat (drop_bit 4 w))"
    by (rule nib_pack [OF drop4_nib])
  finally show ?thesis
    by (simp only: spec_rotateNibbles_def unat_and15 unat_drop4)
qed

lemma tab_sBox_nth: "x < 16 \<Longrightarrow> tab AES_sBox x = Some (AES_sBox ! unat x) \<and> AES_sBox ! unat x < 16"
proof -
  assume x: "x < 16"
  then have "uint x < 16" by (simp add: word_less_def)
  then have "tab AES_sBox x = Some (AES_sBox ! unat x)"
    by (simp add: tab_def at_def AES_sBox_def)
  then show ?thesis using tab_nib [OF x] by auto
qed

lemma subWord_spec: "subWord w = Some (spec_substitute w)"
proof -
  have hi: "tab AES_sBox (drop_bit 4 w) = Some (AES_sBox ! (unat w div 16))"
    using tab_sBox_nth [OF drop4_nib, of w] by (simp add: unat_drop4)
  have lo: "tab AES_sBox (w AND 15) = Some (AES_sBox ! (unat w mod 16))" "AES_sBox ! (unat w mod 16) < 16"
    using tab_sBox_nth [OF and15, of w] by (simp_all add: unat_and15)
  show ?thesis
    by (simp add: subWord_def hi lo(1) nib_pack [OF lo(2)] spec_substitute_def)
qed

lemma ucast_of_nat: "(ucast (x :: 'a :: len word) :: 'b :: len word) = of_nat (unat x)"
  by (metis of_nat_unat ucast_eq unsigned_of_int word_of_int_uint)

lemma concat_spec: "push_bit 8 (ucast a) + ucast b = spec_concat a b" for a b :: u8
  by (simp only: spec_concat_def push_bit_eq_mult ucast_of_nat of_nat_add of_nat_mult)
     simp

lemma high_byte: "(ucast (drop_bit 8 (key AND 0xFF00)) :: u8) = of_nat (unat key div 256)" for key :: u16
proof -
  have "drop_bit 8 (key AND push_bit 8 (mask 8)) = drop_bit 8 key"
    by (rule bit_word_eqI) (auto simp add: bit_simps dest: bit_imp_le_length)
  moreover have "push_bit 8 (mask 8) = (0xFF00 :: u16)"
    by (simp add: mask_eq_exp_minus_1)
  ultimately have 1: "drop_bit 8 (key AND 0xFF00) = drop_bit 8 key"
    by (simp only:)
  have 2: "(ucast (drop_bit 8 key) :: u8) = of_nat (unat (drop_bit 8 key))"
    by (rule ucast_of_nat)
  have 3: "unat (drop_bit 8 key) = unat key div 256"
    by (simp add: drop_bit_eq_div unat_div)
  show ?thesis by (simp only: 1 2 3)
qed

lemma low_byte: "(ucast (key AND 0x00FF) :: u8) = of_nat (unat key mod 256)" for key :: u16
proof -
  have "(0xFF :: u16) = mask 8" by (simp add: mask_eq_exp_minus_1)
  then have 1: "key AND 0xFF = key mod 256"
    using take_bit_eq_mod [of 8 key] take_bit_eq_mask [of 8 key] by simp
  have 2: "(ucast (key mod 256) :: u8) = of_nat (unat (key mod 256))"
    by (rule ucast_of_nat)
  have 3: "unat (key mod 256) = unat key mod 256"
    by (simp add: unat_mod)
  show ?thesis by (simp only: 1 2 3)
qed

lemma keyExpansion_words_aux:
  fixes key :: u16
  defines "w0 \<equiv> (of_nat (unat key div 256) :: u8)"
    and "w1 \<equiv> (of_nat (unat key mod 256) :: u8)"
  defines "w2 \<equiv> w0 XOR (spec_substitute (spec_rotateNibbles w1) XOR 0x80)"
  defines "w3 \<equiv> w2 XOR w1"
  defines "w4 \<equiv> w2 XOR (spec_substitute (spec_rotateNibbles w3) XOR 0x30)"
  defines "w5 \<equiv> w4 XOR w3"
  shows "keyExpansion key =
           Some (intToState (spec_concat w0 w1), intToState (spec_concat w2 w3),
                 intToState (spec_concat w4 w5))
         \<and> spec_concat w0 w1 = key
         \<and> rotWord w1 = spec_rotateNibbles w1
         \<and> subWord w1 = Some (spec_substitute w1)"
proof -
  have k: "keyExpansion key =
           Some (intToState (spec_concat w0 w1), intToState (spec_concat w2 w3),
                 intToState (spec_concat w4 w5))"
    unfolding keyExpansion_def Let_def high_byte low_byte rotWord_spec subWord_spec concat_spec
    by (simp add: w0_def w1_def w2_def w3_def w4_def w5_def)
  have "unat key div 256 < 256"
    using unsigned_less [of key, where ?'a = nat] by simp
  then have "spec_concat w0 w1 = of_nat (unat key div 256 * 256 + unat key mod 256)"
    by (simp add: spec_concat_def w0_def w1_def unat_of_nat)
  then have c: "spec_concat w0 w1 = key"
    by simp
  from k c show ?thesis
    by (simp add: rotWord_spec subWord_spec)
qed

section \<open>Cipher B: encryption and decryption\<close>

lemma pack_or:
  "push_bit 12 (ucast (a AND 15)) + push_bit 8 (ucast (c AND 15)) + push_bit 4 (ucast (b AND 15))
     + ucast (d AND 15)
   = (((push_bit 12 (ucast (a AND 15)) OR push_bit 8 (ucast (c AND 15)))
        OR push_bit 4 (ucast (b AND 15))) OR ucast (d AND 15) :: u16)"
  for a b c d :: u8
proof -
  have 1: "push_bit 12 (ucast (a AND 15)) + push_bit 8 (ucast (c AND 15))
      = (push_bit 12 (ucast (a AND 15)) OR push_bit 8 (ucast (c AND 15)) :: u16)"
    by (rule disjunctive_add) (simp add: bit_simps m15; arith)
  have 2: "(push_bit 12 (ucast (a AND 15)) OR push_bit 8 (ucast (c AND 15)))
        + push_bit 4 (ucast (b AND 15))
      = ((push_bit 12 (ucast (a AND 15)) OR push_bit 8 (ucast (c AND 15)))
        OR push_bit 4 (ucast (b AND 15)) :: u16)"
    by (rule disjunctive_add) (simp add: bit_simps m15; arith)
  have 3: "((push_bit 12 (ucast (a AND 15)) OR push_bit 8 (ucast (c AND 15)))
        OR push_bit 4 (ucast (b AND 15))) + ucast (d AND 15)
      = (((push_bit 12 (ucast (a AND 15)) OR push_bit 8 (ucast (c AND 15)))
        OR push_bit 4 (ucast (b AND 15))) OR ucast (d AND 15) :: u16)"
    by (rule disjunctive_add) (simp add: bit_simps m15; arith)
  show ?thesis by (simp only: 1 2 3)
qed

lemma unpack_masked:
  fixes a b c d :: u8
  defines "n \<equiv> (push_bit 12 (ucast (a AND 15)) + push_bit 8 (ucast (c AND 15))
                 + push_bit 4 (ucast (b AND 15)) + ucast (d AND 15) :: u16)"
  shows "(ucast (drop_bit 12 n AND 0xF) :: u8) = a AND 15"
    and "(ucast (drop_bit 4 n AND 0xF) :: u8) = b AND 15"
    and "(ucast (drop_bit 8 n AND 0xF) :: u8) = c AND 15"
    and "(ucast (n AND 0xF) :: u8) = d AND 15"
  unfolding n_def pack_or
     apply (rule bit_word_eqI, simp add: bit_simps m15; arith)
    apply (rule bit_word_eqI, simp add: bit_simps m15; arith)
   apply (rule bit_word_eqI, simp add: bit_simps m15; arith)
  apply (rule bit_word_eqI, simp add: bit_simps m15; arith)
  done

lemma stateToInt_nib:
  assumes "nibble_state s"
  shows "\<exists>n. stateToInt s = Some n \<and> intToState n = s"
proof -
  from assms obtain a b c d where s: "s = [a, b, c, d]" "a < 16" "b < 16" "c < 16" "d < 16"
    by (rule nibble_stateE)
  have m: "a AND 15 = a" "b AND 15 = b" "c AND 15 = c" "d AND 15 = d"
    using s by (simp_all add: nib_and)
  show ?thesis
    using unpack_masked [of a c b d] by (simp add: s(1) intToState_def m)
qed

lemma intToState_entry: "(ucast (x AND 15 :: u16) :: u8) < 16"
proof -
  have "(ucast (x AND 15) :: u8) = ucast (x AND 15) AND 15"
    by (rule bit_word_eqI) (simp add: bit_simps m15)
  then show ?thesis using and15 [of "ucast (x AND 15)"] by simp
qed

lemma intToState_nibble_state: "nibble_state (intToState n)"
  by (simp add: intToState_def nibble_state_def intToState_entry)

lemma pack_unpack:
  "push_bit 12 (ucast (ucast (drop_bit 12 n AND 0xF) :: u8))
   + push_bit 8 (ucast (ucast (drop_bit 8 n AND 0xF) :: u8))
   + push_bit 4 (ucast (ucast (drop_bit 4 n AND 0xF) :: u8))
   + ucast (ucast (n AND 0xF) :: u8) = (n :: u16)"
proof -
  have e: "\<And>x :: u16. (ucast (x AND 15) :: u8) = ucast (x AND 15) AND 15"
    by (rule bit_word_eqI) (simp add: bit_simps m15)
  have "(((push_bit 12 (ucast (ucast (drop_bit 12 n AND 0xF) AND 15 :: u8))
           OR push_bit 8 (ucast (ucast (drop_bit 8 n AND 0xF) AND 15 :: u8)))
           OR push_bit 4 (ucast (ucast (drop_bit 4 n AND 0xF) AND 15 :: u8)))
           OR ucast (ucast (n AND 0xF) AND 15 :: u8)) = (n :: u16)"
  proof (rule bit_word_eqI, goal_cases)
    case (1 i)
    then consider "i < 4" | "4 \<le> i" "i < 8" | "8 \<le> i" "i < 12" | "12 \<le> i" "i < 16"
      by fastforce
    then show ?case
      by cases (auto simp add: bit_simps m15)
  qed
  then show ?thesis using e pack_or by metis
qed

lemma stateToInt_intToState: "stateToInt (intToState n) = Some n"
  by (simp add: intToState_def pack_unpack)

lemma keyExpansion_nib:
  "\<exists>k0 k1 k2. keyExpansion key = Some (k0, k1, k2)
     \<and> nibble_state k0 \<and> nibble_state k1 \<and> nibble_state k2"
  unfolding keyExpansion_def Let_def subWord_spec
  by (simp add: intToState_nibble_state)

lemma Encrypt_Decrypt_keys:
  assumes k: "nibble_state k0" "nibble_state k1" "nibble_state k2"
  defines "e \<equiv> \<lparr>preRoundKey = k0, round1Key = k1, round2Key = k2\<rparr>"
  shows "Option.bind (Encrypt e p) (Decrypt e) = Some p"
proof -
  obtain s0 where s0: "addRoundKey k0 (intToState p) = Some s0" "nibble_state s0"
      "addRoundKey k0 s0 = Some (intToState p)"
    using addRoundKey_nib [OF k(1) intToState_nibble_state] by blast
  obtain t1 where t1: "subNibbles AES_sBox s0 = Some t1" "nibble_state t1"
      "subNibbles AES_sBoxI t1 = Some s0"
    using subNibbles_nib [OF s0(2)] by blast
  obtain t2 where t2: "shiftRows t1 = Some t2" "nibble_state t2" "shiftRows t2 = Some t1"
    using shiftRows_nib [OF t1(2)] by blast
  obtain s1 where s1: "mixColumns t2 = Some s1" "nibble_state s1"
      "inverseMixColumns s1 = Some t2"
    using mixColumns_nib [OF t2(2)] by blast
  obtain s2 where s2: "addRoundKey k1 s1 = Some s2" "nibble_state s2"
      "addRoundKey k1 s2 = Some s1"
    using addRoundKey_nib [OF k(2) s1(2)] by blast
  obtain t3 where t3: "subNibbles AES_sBox s2 = Some t3" "nibble_state t3"
      "subNibbles AES_sBoxI t3 = Some s2"
    using subNibbles_nib [OF s2(2)] by blast
  obtain s3 where s3: "shiftRows t3 = Some s3" "nibble_state s3" "shiftRows s3 = Some t3"
    using shiftRows_nib [OF t3(2)] by blast
  obtain s4 where s4: "addRoundKey k2 s3 = Some s4" "nibble_state s4"
      "addRoundKey k2 s4 = Some s3"
    using addRoundKey_nib [OF k(3) s3(2)] by blast
  obtain c where c: "stateToInt s4 = Some c" "intToState c = s4"
    using stateToInt_nib [OF s4(2)] by blast
  have enc: "Encrypt e p = Some c"
    by (simp add: Encrypt_def e_def s0 t1 t2 s1 s2 t3 s3 s4 c)
  have dec: "Decrypt e c = Some p"
    by (simp add: Decrypt_def e_def c s4 s3 t3 s2 s1 t2 t1 s0 stateToInt_intToState)
  show ?thesis by (simp add: enc dec)
qed

lemma Encrypt_Decrypt_general:
  "Option.bind (SimplifiedAES key) (\<lambda>saes. Option.bind (Encrypt saes p) (Decrypt saes)) = Some p"
proof -
  obtain k0 k1 k2 where k: "keyExpansion key = Some (k0, k1, k2)"
      "nibble_state k0" "nibble_state k1" "nibble_state k2"
    using keyExpansion_nib [of key] by blast
  show ?thesis
    using Encrypt_Decrypt_keys [OF k(2-4), of p] by (simp add: SimplifiedAES_def k(1))
qed

text \<open>
  C2. For every 16-bit key and every 16-bit plaintext, the engine constructed from the key
  decrypts the encryption of the plaintext to the plaintext; in particular for the key
  \<open>0x4AF5\<close> and the plaintext \<open>0xD728\<close> of the program's \<open>main\<close>.
\<close>

theorem Decrypt_Encrypt_roundtrip:
  "Option.bind (SimplifiedAES key) (\<lambda>saes. Option.bind (Encrypt saes plaintext) (Decrypt saes))
     = Some plaintext
   \<and> Option.bind (SimplifiedAES 0x4AF5) (\<lambda>saes. Option.bind (Encrypt saes 0xD728) (Decrypt saes))
     = Some 0xD728"
  by (simp only: Encrypt_Decrypt_general)

theorem Decrypt_Encrypt_roundtrip_witness:
  "Option.bind (SimplifiedAES 0x2D55)
       (\<lambda>saes. Option.bind (Encrypt saes 0x6F6B) (Decrypt saes)) = Some 0x6F6B"
  using Decrypt_Encrypt_roundtrip [of "0x2D55" "0x6F6B"] by (rule conjunct1)

section \<open>Cipher B: the keys that the expansion returns\<close>

lemma hi_nibble: "(of_nat (unat a div 16) :: u8) = drop_bit 4 a"
proof -
  have "of_nat (unat (drop_bit 4 a)) = drop_bit 4 a"
    by simp
  then show ?thesis
    by (simp only: unat_drop4)
qed

lemma lo_nibble: "(of_nat (unat a mod 16) :: u8) = a AND 15"
proof -
  have "of_nat (unat (a AND 15)) = a AND 15"
    by simp
  then show ?thesis
    by (simp only: unat_and15)
qed

lemma spec_state_nibble_state: "nibble_state (spec_state a b)"
  unfolding spec_state_def hi_nibble lo_nibble nibble_state_def
  by (simp add: drop4_nib and15)

lemma nat_split_16:
  fixes x y :: nat
  shows "x * 256 + y = (x div 16) * 4096 + (x mod 16) * 256 + (y div 16) * 16 + y mod 16"
proof -
  have "x = 16 * (x div 16) + x mod 16" "y = 16 * (y div 16) + y mod 16"
    by simp_all
  then show ?thesis
    by arith
qed

lemma stateToInt_spec_state: "stateToInt (spec_state a b) = Some (spec_concat a b)"
proof -
  have 1: "stateToInt (spec_state a b)
      = Some (push_bit 12 (ucast (drop_bit 4 a)) + push_bit 8 (ucast (a AND 15))
              + push_bit 4 (ucast (drop_bit 4 b)) + ucast (b AND 15))"
    by (simp only: spec_state_def hi_nibble lo_nibble stateToInt.simps)
  have 2: "(push_bit 12 (ucast (drop_bit 4 a)) + push_bit 8 (ucast (a AND 15))
              + push_bit 4 (ucast (drop_bit 4 b)) + ucast (b AND 15) :: u16)
      = of_nat ((unat a div 16) * 4096 + (unat a mod 16) * 256
              + (unat b div 16) * 16 + unat b mod 16)"
    by (simp only: ucast_of_nat push_bit_eq_mult unat_drop4 unat_and15 of_nat_add of_nat_mult)
       simp
  show ?thesis
    by (simp only: 1 2 spec_concat_def nat_split_16 [of "unat a" "unat b"])
qed

lemma intToState_spec_concat: "intToState (spec_concat a b) = spec_state a b"
proof -
  obtain n where n: "stateToInt (spec_state a b) = Some n" "intToState n = spec_state a b"
    using stateToInt_nib [OF spec_state_nibble_state, of a b] by blast
  from n(1) have "n = spec_concat a b"
    by (simp only: stateToInt_spec_state option.inject)
  with n(2) show ?thesis by (simp only:)
qed

lemma key_4AF5_bytes:
  "(of_nat (unat (0x4AF5 :: u16) div 256) :: u8) = 0x4A"
  "(of_nat (unat (0x4AF5 :: u16) mod 256) :: u8) = 0xF5"
  by simp_all

lemma key_4AF5_rot:
  "spec_rotateNibbles 0xF5 = 0x5F" "spec_rotateNibbles 0x28 = 0x82"
  by (simp_all add: spec_rotateNibbles_def)

lemma key_4AF5_sub:
  "spec_substitute 0x5F = 0x17" "spec_substitute 0x82 = 0x6A"
  by (simp_all add: spec_substitute_def AES_sBox_def)

lemma key_4AF5_xor:
  "(0x4A :: u8) XOR (0x17 XOR 0x80) = 0xDD" "(0xDD :: u8) XOR 0xF5 = 0x28"
  "(0xDD :: u8) XOR (0x6A XOR 0x30) = 0x87" "(0x87 :: u8) XOR 0x28 = 0xAF"
  by simp_all

lemma key_4AF5_states:
  "spec_state 0x4A 0xF5 = [0x4, 0xF, 0xA, 0x5]"
  "spec_state 0xDD 0x28 = [0xD, 0x2, 0xD, 0x8]"
  "spec_state 0x87 0xAF = [0x8, 0xA, 0x7, 0xF]"
  by (simp_all add: spec_state_def)

text \<open>
  C4. With \<open>w0\<close> the high and \<open>w1\<close> the low byte of the key, \<open>keyExpansion\<close> computes
  \<open>w2 = w0 XOR (substitute (rotateNibbles w1) XOR 0x80)\<close>, \<open>w3 = w2 XOR w1\<close>,
  \<open>w4 = w2 XOR (substitute (rotateNibbles w3) XOR 0x30)\<close>, \<open>w5 = w4 XOR w3\<close> and returns
  three states: the pre-round key \<open>w0\<parallel>w1\<close> (the key itself), round key 1 \<open>w2\<parallel>w3\<close> and
  round key 2 \<open>w4\<parallel>w5\<close>, each as the four nibbles high of the first byte, high of the
  second, low of the first, low of the second, which \<open>stateToInt\<close> reads back as the
  16-bit value. \<open>rotWord\<close> swaps the two nibbles of a byte and \<open>subWord\<close> applies the
  S-box to each nibble.
\<close>

theorem keyExpansion_words:
  "(let w0 = (of_nat (unat key div 256) :: u8);
        w1 = (of_nat (unat key mod 256) :: u8);
        w2 = w0 XOR (spec_substitute (spec_rotateNibbles w1) XOR 0x80);
        w3 = w2 XOR w1;
        w4 = w2 XOR (spec_substitute (spec_rotateNibbles w3) XOR 0x30);
        w5 = w4 XOR w3
    in keyExpansion key = Some (spec_state w0 w1, spec_state w2 w3, spec_state w4 w5)
       \<and> spec_concat w0 w1 = key)
   \<and> rotWord w = spec_rotateNibbles w
   \<and> subWord w = Some (spec_substitute w)
   \<and> stateToInt (spec_state w w') = Some (spec_concat w w')"
proof -
  have "(let w0 = (of_nat (unat key div 256) :: u8);
        w1 = (of_nat (unat key mod 256) :: u8);
        w2 = w0 XOR (spec_substitute (spec_rotateNibbles w1) XOR 0x80);
        w3 = w2 XOR w1;
        w4 = w2 XOR (spec_substitute (spec_rotateNibbles w3) XOR 0x30);
        w5 = w4 XOR w3
    in keyExpansion key = Some (spec_state w0 w1, spec_state w2 w3, spec_state w4 w5)
       \<and> spec_concat w0 w1 = key)"
    using keyExpansion_words_aux [of key]
    unfolding Let_def intToState_spec_concat by (elim conjE) (intro conjI)
  then show ?thesis
    using rotWord_spec [of w] subWord_spec [of w] stateToInt_spec_state [of w w']
    by (intro conjI)
qed

theorem keyExpansion_words_witness:
  "keyExpansion 0x4AF5 = Some ([0x4, 0xF, 0xA, 0x5], [0xD, 0x2, 0xD, 0x8], [0x8, 0xA, 0x7, 0xF])
   \<and> spec_concat 0x4A 0xF5 = 0x4AF5
   \<and> rotWord 0xF5 = 0x5F
   \<and> subWord 0x5F = Some 0x17
   \<and> stateToInt [0xD, 0x2, 0xD, 0x8] = Some (spec_concat 0xDD 0x28)"
  using keyExpansion_words [of "0x4AF5" "0xF5" "0x28"] keyExpansion_words [of "0x4AF5" "0x5F" "0x28"]
    keyExpansion_words [of "0x4AF5" "0xDD" "0x28"]
  by (simp only: Let_def key_4AF5_bytes key_4AF5_rot key_4AF5_sub key_4AF5_xor key_4AF5_states
      simp_thms)

section \<open>Cipher B: the row operation\<close>

text \<open>
  C10. \<open>shiftRows\<close> is an involution: on every state of four nibbles, applying it twice
  gives the state back, so \<open>Decrypt\<close> can use \<open>shiftRows\<close> itself as the inverse row
  operation.
\<close>

theorem shiftRows_involution:
  "length s = 4 \<Longrightarrow> Option.bind (shiftRows s) shiftRows = Some s"
proof -
  assume len: "length s = 4"
  then obtain a b c d where "s = [a, b, c, d]"
    by (auto simp: numeral_eq_Suc length_Suc_conv)
  then show ?thesis by simp
qed

theorem shiftRows_involution_witness:
  "length [1, 2, 3, 4 :: u8] = 4
   \<and> Option.bind (shiftRows [1, 2, 3, 4]) shiftRows = Some [1, 2, 3, 4]"
  using shiftRows_involution [of "[1, 2, 3, 4]"] by simp

section \<open>Cipher A: tables, key schedule and S-boxes\<close>

lemma upt_4: "[0..<4] = [0, 1, 2, 3]"
  by (simp add: upt_rec)

lemma upt_5: "[0..<5] = [0, 1, 2, 3, 4]"
  by (simp add: upt_rec)

lemma upt_8: "[0..<8] = [0, 1, 2, 3, 4, 5, 6, 7]"
  by (simp add: upt_rec)

lemma upt_10: "[0..<10] = [0, 1, 2, 3, 4, 5, 6, 7, 8, 9]"
  by (simp add: upt_rec)

lemma length4E:
  assumes "length xs = 4"
  obtains a b c d where "xs = [a, b, c, d]"
  using assms by (auto simp: numeral_eq_Suc length_Suc_conv)

lemma length5E:
  assumes "length xs = 5"
  obtains a b c d e where "xs = [a, b, c, d, e]"
  using assms by (auto simp: numeral_eq_Suc length_Suc_conv)

lemma length8E:
  assumes "length xs = 8"
  obtains a b c d e f g h where "xs = [a, b, c, d, e, f, g, h]"
  using assms by (auto simp: numeral_eq_Suc length_Suc_conv)

lemma length10E:
  assumes "length xs = 10"
  obtains a b c d e f g h i j where "xs = [a, b, c, d, e, f, g, h, i, j]"
  using assms by (auto simp: numeral_eq_Suc length_Suc_conv)

lemma permute_P10:
  "permute [a, b, c, d, e, f, g, h, i, j] P10 10 = Some [c, e, b, g, d, j, a, i, h, f]"
  by (simp add: permute_def P10_def upt_10 at_def)

lemma permute_P8:
  "permute [a, b, c, d, e, f, g, h, i, j] P8 8 = Some [f, c, g, d, h, e, j, i]"
  by (simp add: permute_def P8_def upt_8 at_def)

lemma leftShift_5:
  "leftShift [a, b, c, d, e] (Suc 0) = [b, c, d, e, a]"
  "leftShift [a, b, c, d, e] 2 = [c, d, e, a, b]"
  by (simp_all add: leftShift_def upt_5)

lemma generateKeys_explicit:
  "generateKeys [a, b, c, d, e, f, g, h, i, j]
     = Some ([a, g, i, d, h, c, j, f], [h, c, f, e, j, b, i, a])"
  by (simp add: generateKeys_def Let_def permute_P10 leftShift_5 permute_P8)

text \<open>
  C3. For every 10-bit key, with \<open>l\<close> and \<open>r\<close> the two 5-bit halves of P10 applied to the
  key, \<open>generateKeys\<close> returns as round key 1 P8 applied to \<open>l\<close> and \<open>r\<close> each rotated
  left by 1, and as round key 2 P8 applied to those rotated halves each rotated left by a
  further 2, which is a rotation of \<open>l\<close> and \<open>r\<close> by 3.
\<close>

theorem generateKeys_schedule:
  assumes "length key = 10"
  shows "(let p10 = spec_apply_table P10 key;
              l = take 5 p10;
              r = drop 5 p10
          in generateKeys key =
               Some (spec_apply_table P8 (rotate 1 l @ rotate 1 r),
                     spec_apply_table P8 (rotate 2 (rotate 1 l) @ rotate 2 (rotate 1 r)))
             \<and> rotate 2 (rotate 1 l) = rotate 3 l \<and> rotate 2 (rotate 1 r) = rotate 3 r)"
proof -
  from assms obtain a b c d e f g h i j where key: "key = [a, b, c, d, e, f, g, h, i, j]"
    by (rule length10E)
  have r: "rotate 1 [c, e, b, g, d] = [e, b, g, d, c]" "rotate 1 [j, a, i, h, f] = [a, i, h, f, j]"
    "rotate 2 [e, b, g, d, c] = [g, d, c, e, b]" "rotate 2 [a, i, h, f, j] = [h, f, j, a, i]"
    "rotate 3 [c, e, b, g, d] = [g, d, c, e, b]" "rotate 3 [j, a, i, h, f] = [h, f, j, a, i]"
    by (simp_all add: numeral_eq_Suc)
  show ?thesis
    unfolding key generateKeys_explicit
    by (simp add: spec_apply_table_def P10_def P8_def r)
qed

theorem generateKeys_schedule_witness:
  "length [1, 0, 1, 0, 0, 0, 0, 0, 1, 0 :: int] = 10
   \<and> generateKeys [1, 0, 1, 0, 0, 0, 0, 0, 1, 0]
       = Some ([1, 0, 1, 0, 0, 1, 0, 0], [0, 1, 0, 0, 0, 0, 1, 1])"
proof -
  have h: "length [1, 0, 1, 0, 0, 0, 0, 0, 1, 0 :: int] = 10" by simp
  have r: "rotate 1 [1, 0, 0, 0, 0 :: int] = [0, 0, 0, 0, 1]" "rotate 1 [0, 1, 1, 0, 0 :: int] = [1, 1, 0, 0, 0]"
    "rotate 2 [0, 0, 0, 0, 1 :: int] = [0, 0, 1, 0, 0]" "rotate 2 [1, 1, 0, 0, 0 :: int] = [0, 0, 0, 1, 1]"
    by (simp_all add: numeral_eq_Suc)
  show ?thesis
    using h generateKeys_schedule [OF h]
    by (simp add: spec_apply_table_def P10_def P8_def Let_def r)
qed

lemma intToBin_2: "intToBin v 2 = [drop_bit 1 v AND 1, v AND 1]"
  by (simp add: numeral_2_eq_2)

lemma sBox_S0_table:
  "\<forall>a \<in> {0, 1 :: int}. \<forall>b \<in> {0, 1 :: int}. \<forall>c \<in> {0, 1 :: int}. \<forall>d \<in> {0, 1 :: int}.
     sBox [a, b, c, d] S0 =
          Some [S0 ! nat (2 * a + d) ! nat (2 * b + c) div 2 mod 2,
                S0 ! nat (2 * a + d) ! nat (2 * b + c) mod 2]"
  by (simp add: sBox_def at_def S0_def intToBin_2)

lemma sBox_S1_table:
  "\<forall>a \<in> {0, 1 :: int}. \<forall>b \<in> {0, 1 :: int}. \<forall>c \<in> {0, 1 :: int}. \<forall>d \<in> {0, 1 :: int}.
     sBox [a, b, c, d] S1 =
          Some [S1 ! nat (2 * a + d) ! nat (2 * b + c) div 2 mod 2,
                S1 ! nat (2 * a + d) ! nat (2 * b + c) mod 2]"
  by (simp add: sBox_def at_def S1_def intToBin_2)

lemma sBox_bits:
  assumes "set [a, b, c, d] \<subseteq> {0, 1}" "S = S0 \<or> S = S1"
  shows "sBox [a, b, c, d] S =
          Some [S ! nat (2 * a + d) ! nat (2 * b + c) div 2 mod 2,
                S ! nat (2 * a + d) ! nat (2 * b + c) mod 2]"
proof -
  from assms(1) have m: "a \<in> {0, 1}" "b \<in> {0, 1}" "c \<in> {0, 1}" "d \<in> {0, 1}"
    by simp_all
  from assms(2) show ?thesis
  proof
    assume "S = S0"
    then show ?thesis using sBox_S0_table m by blast
  next
    assume "S = S1"
    then show ?thesis using sBox_S1_table m by blast
  qed
qed

text \<open>
  C7. For every group \<open>g\<close> of four bits and either table \<open>S\<close>, \<open>sBox\<close> reads the row
  \<open>2 * g[0] + g[3]\<close> and the column \<open>2 * g[1] + g[2]\<close> of \<open>S\<close> and returns the two bits of
  that entry, most significant first.
\<close>

theorem sBox_addressing:
  assumes "length g = 4" "set g \<subseteq> {0, 1}" "S = S0 \<or> S = S1"
  shows "(let row = 2 * g ! 0 + g ! 3;
              col = 2 * g ! 1 + g ! 2;
              v = S ! nat row ! nat col
          in sBox g S = Some [v div 2 mod 2, v mod 2]
             \<and> 0 \<le> row \<and> row < 4 \<and> 0 \<le> col \<and> col < 4)"
proof -
  from assms(1) obtain a b c d where g: "g = [a, b, c, d]"
    by (rule length4E)
  from assms(2) have m: "set [a, b, c, d] \<subseteq> {0, 1}"
    by (simp add: g)
  have r: "0 \<le> 2 * a + d \<and> 2 * a + d < 4 \<and> 0 \<le> 2 * b + c \<and> 2 * b + c < 4"
    using m by auto
  show ?thesis
    using sBox_bits [OF m assms(3)] r by (simp add: g Let_def)
qed

theorem sBox_addressing_witness:
  "length [1, 0, 1, 1 :: int] = 4 \<and> set [1, 0, 1, 1 :: int] \<subseteq> {0, 1} \<and> (S0 = S0 \<or> S0 = S1)
   \<and> sBox [1, 0, 1, 1] S0 = Some [0, 1]"
proof -
  have h: "length [1, 0, 1, 1 :: int] = 4" "set [1, 0, 1, 1 :: int] \<subseteq> {0, 1}" "S0 = S0 \<or> S0 = S1"
    by simp_all
  have "S0 ! nat (2 * 1 + 1) ! nat (2 * 0 + 1) = 1"
    by (simp add: S0_def)
  then show ?thesis
    using h sBox_addressing [OF h] by (simp add: Let_def)
qed

section \<open>Cipher A: the round function and the round trip\<close>

lemma xor_bit: "a \<in> {0, 1 :: int} \<Longrightarrow> b \<in> {0, 1} \<Longrightarrow> a XOR b \<in> {0, 1}"
  by auto

lemma permute_E_P:
  "permute [a, b, c, d] E_P 8 = Some [d, a, b, c, b, c, d, a]"
  by (simp add: permute_def E_P_def upt_8 at_def)

lemma permute_P4:
  "permute [a, b, c, d] P4 4 = Some [b, d, c, a]"
  by (simp add: permute_def P4_def upt_4 at_def)

lemma permute_IP:
  "permute [a, b, c, d, e, f, g, h] IP 8 = Some [b, f, c, a, d, h, e, g]"
  by (simp add: permute_def IP_def upt_8 at_def)

lemma permute_IP_INV:
  "permute [a, b, c, d, e, f, g, h] IP_INV 8 = Some [d, a, c, e, g, b, h, f]"
  by (simp add: permute_def IP_INV_def upt_8 at_def)

lemma XOR_vec_8:
  "XOR_vec [a0, a1, a2, a3, a4, a5, a6, a7] [b0, b1, b2, b3, b4, b5, b6, b7]
     = Some [a0 XOR b0, a1 XOR b1, a2 XOR b2, a3 XOR b3, a4 XOR b4, a5 XOR b5, a6 XOR b6, a7 XOR b7]"
  by (simp add: XOR_vec_def upt_8 at_def)

lemma XOR_vec_4:
  "XOR_vec [a0, a1, a2, a3] [b0, b1, b2, b3] = Some [a0 XOR b0, a1 XOR b1, a2 XOR b2, a3 XOR b3]"
  by (simp add: XOR_vec_def upt_4 at_def)

lemma sBox_two_bits:
  assumes "set [a, b, c, d] \<subseteq> {0, 1}" "S = S0 \<or> S = S1"
  shows "\<exists>x y. sBox [a, b, c, d] S = Some [x, y] \<and> x \<in> {0, 1} \<and> y \<in> {0, 1}"
proof -
  have "\<And>v :: int. v div 2 mod 2 \<in> {0, 1} \<and> v mod 2 \<in> {0, 1}"
    by auto
  then show ?thesis
    using sBox_bits [OF assms] by blast
qed

lemma functionF_bits:
  assumes r: "set [r0, r1, r2, r3] \<subseteq> {0, 1}"
    and k: "set [k0, k1, k2, k3, k4, k5, k6, k7] \<subseteq> {0, 1}"
  shows "\<exists>c0 c1 c2 c3. set [c0, c1, c2, c3] \<subseteq> {0, 1} \<and>
           (\<forall>l0 l1 l2 l3. functionF [l0, l1, l2, l3] [r0, r1, r2, r3] [k0, k1, k2, k3, k4, k5, k6, k7]
              = Some [l0 XOR c0, l1 XOR c1, l2 XOR c2, l3 XOR c3, r0, r1, r2, r3])"
proof -
  have rb: "r0 \<in> {0, 1}" "r1 \<in> {0, 1}" "r2 \<in> {0, 1}" "r3 \<in> {0, 1}"
    using r by simp_all
  have kb: "k0 \<in> {0, 1}" "k1 \<in> {0, 1}" "k2 \<in> {0, 1}" "k3 \<in> {0, 1}"
      "k4 \<in> {0, 1}" "k5 \<in> {0, 1}" "k6 \<in> {0, 1}" "k7 \<in> {0, 1}"
    using k by simp_all
  have t0: "set [r3 XOR k0, r0 XOR k1, r1 XOR k2, r2 XOR k3] \<subseteq> {0, 1}"
    using xor_bit [OF rb(4) kb(1)] xor_bit [OF rb(1) kb(2)] xor_bit [OF rb(2) kb(3)]
      xor_bit [OF rb(3) kb(4)] by simp
  have t1: "set [r1 XOR k4, r2 XOR k5, r3 XOR k6, r0 XOR k7] \<subseteq> {0, 1}"
    using xor_bit [OF rb(2) kb(5)] xor_bit [OF rb(3) kb(6)] xor_bit [OF rb(4) kb(7)]
      xor_bit [OF rb(1) kb(8)] by simp
  obtain x0 y0 where s0: "sBox [r3 XOR k0, r0 XOR k1, r1 XOR k2, r2 XOR k3] S0 = Some [x0, y0]"
      "x0 \<in> {0, 1}" "y0 \<in> {0, 1}"
    using sBox_two_bits [OF t0, of S0] by auto
  obtain x1 y1 where s1: "sBox [r1 XOR k4, r2 XOR k5, r3 XOR k6, r0 XOR k7] S1 = Some [x1, y1]"
      "x1 \<in> {0, 1}" "y1 \<in> {0, 1}"
    using sBox_two_bits [OF t1, of S1] by auto
  have "\<And>l0 l1 l2 l3. functionF [l0, l1, l2, l3] [r0, r1, r2, r3] [k0, k1, k2, k3, k4, k5, k6, k7]
      = Some [l0 XOR y0, l1 XOR y1, l2 XOR x1, l3 XOR x0, r0, r1, r2, r3]"
    by (simp add: functionF_def permute_E_P XOR_vec_8 s0(1) s1(1) permute_P4 XOR_vec_4)
  moreover have "set [y0, y1, x1, x0] \<subseteq> {0, 1}"
    using s0 s1 by simp
  ultimately show ?thesis by blast
qed


lemma sdes_roundtrip_explicit:
  assumes b: "set [b0, b1, b2, b3, b4, b5, b6, b7] \<subseteq> {0, 1}"
    and k: "set [a, b, c, d, e, f, g, h, i, j] \<subseteq> {0, 1}"
  shows "\<exists>ct. sdes [b0, b1, b2, b3, b4, b5, b6, b7] [a, b, c, d, e, f, g, h, i, j] False = Some ct
           \<and> length ct = 8 \<and> set ct \<subseteq> {0, 1}
           \<and> sdes ct [a, b, c, d, e, f, g, h, i, j] True = Some [b0, b1, b2, b3, b4, b5, b6, b7]"
proof -
  have bb: "b0 \<in> {0, 1}" "b1 \<in> {0, 1}" "b2 \<in> {0, 1}" "b3 \<in> {0, 1}"
      "b4 \<in> {0, 1}" "b5 \<in> {0, 1}" "b6 \<in> {0, 1}" "b7 \<in> {0, 1}"
    using b by simp_all
  have k1: "set [a, g, i, d, h, c, j, f] \<subseteq> {0, 1}"
    using k by simp
  have k2: "set [h, c, f, e, j, b, i, a] \<subseteq> {0, 1}"
    using k by simp
  have r: "set [b3, b7, b4, b6] \<subseteq> {0, 1}"
    using bb by simp
  obtain c0 c1 c2 c3 where c: "set [c0, c1, c2, c3] \<subseteq> {0, 1}"
      "\<And>l0 l1 l2 l3. functionF [l0, l1, l2, l3] [b3, b7, b4, b6] [a, g, i, d, h, c, j, f]
          = Some [l0 XOR c0, l1 XOR c1, l2 XOR c2, l3 XOR c3, b3, b7, b4, b6]"
    using functionF_bits [OF r k1] by blast
  have cb: "c0 \<in> {0, 1}" "c1 \<in> {0, 1}" "c2 \<in> {0, 1}" "c3 \<in> {0, 1}"
    using c(1) by simp_all
  have l': "set [b1 XOR c0, b5 XOR c1, b2 XOR c2, b0 XOR c3] \<subseteq> {0, 1}"
    using xor_bit [OF bb(2) cb(1)] xor_bit [OF bb(6) cb(2)] xor_bit [OF bb(3) cb(3)]
      xor_bit [OF bb(1) cb(4)] by simp
  obtain d0 d1 d2 d3 where d: "set [d0, d1, d2, d3] \<subseteq> {0, 1}"
      "\<And>l0 l1 l2 l3. functionF [l0, l1, l2, l3] [b1 XOR c0, b5 XOR c1, b2 XOR c2, b0 XOR c3]
            [h, c, f, e, j, b, i, a]
          = Some [l0 XOR d0, l1 XOR d1, l2 XOR d2, l3 XOR d3,
                  b1 XOR c0, b5 XOR c1, b2 XOR c2, b0 XOR c3]"
    using functionF_bits [OF l' k2] by blast
  have db: "d0 \<in> {0, 1}" "d1 \<in> {0, 1}" "d2 \<in> {0, 1}" "d3 \<in> {0, 1}"
    using d(1) by simp_all
  let ?ct = "[b6 XOR d3, b3 XOR d0, b4 XOR d2, b1 XOR c0, b2 XOR c2, b7 XOR d1, b0 XOR c3, b5 XOR c1]"
  have enc: "sdes [b0, b1, b2, b3, b4, b5, b6, b7] [a, b, c, d, e, f, g, h, i, j] False = Some ?ct"
    by (simp add: sdes_def generateKeys_explicit permute_IP c(2) d(2) permute_IP_INV)
  have x: "\<And>u v :: int. (u XOR v) XOR v = u"
    by (simp add: xor.assoc)
  have dec: "sdes ?ct [a, b, c, d, e, f, g, h, i, j] True = Some [b0, b1, b2, b3, b4, b5, b6, b7]"
    by (simp add: sdes_def generateKeys_explicit permute_IP c(2) d(2) permute_IP_INV x)
  have ctb: "set ?ct \<subseteq> {0, 1}"
    using xor_bit [OF bb(7) db(4)] xor_bit [OF bb(4) db(1)] xor_bit [OF bb(5) db(3)]
      xor_bit [OF bb(8) db(2)] l' by simp
  from enc dec ctb show ?thesis by simp
qed

text \<open>
  C1. For every block of 8 bits and every key of 10 bits, \<open>sdes\<close> in encryption mode
  returns a ciphertext, and \<open>sdes\<close> in decryption mode with the same key returns the
  block from it.
\<close>

theorem sdes_roundtrip:
  assumes "length block = 8" "set block \<subseteq> {0, 1}" "length key = 10" "set key \<subseteq> {0, 1}"
  shows "Option.bind (sdes block key False) (\<lambda>ct. sdes ct key True) = Some block"
proof -
  from assms(1) obtain b0 b1 b2 b3 b4 b5 b6 b7 where b: "block = [b0, b1, b2, b3, b4, b5, b6, b7]"
    by (rule length8E)
  from assms(3) obtain a b c d e f g h i j where k: "key = [a, b, c, d, e, f, g, h, i, j]"
    by (rule length10E)
  obtain ct where "sdes block key False = Some ct" "sdes ct key True = Some block"
    using sdes_roundtrip_explicit [OF assms(2) [unfolded b] assms(4) [unfolded k]]
    unfolding b k by blast
  then show ?thesis by simp
qed

theorem sdes_roundtrip_witness:
  "length [0, 1, 1, 1, 0, 0, 1, 0 :: int] = 8 \<and> set [0, 1, 1, 1, 0, 0, 1, 0 :: int] \<subseteq> {0, 1}
   \<and> length [1, 0, 1, 0, 0, 0, 0, 0, 1, 0 :: int] = 10
   \<and> set [1, 0, 1, 0, 0, 0, 0, 0, 1, 0 :: int] \<subseteq> {0, 1}
   \<and> Option.bind (sdes [0, 1, 1, 1, 0, 0, 1, 0] [1, 0, 1, 0, 0, 0, 0, 0, 1, 0] False)
         (\<lambda>ct. sdes ct [1, 0, 1, 0, 0, 0, 0, 0, 1, 0] True) = Some [0, 1, 1, 1, 0, 0, 1, 0]"
proof -
  have h: "length [0, 1, 1, 1, 0, 0, 1, 0 :: int] = 8" "set [0, 1, 1, 1, 0, 0, 1, 0 :: int] \<subseteq> {0, 1}"
    "length [1, 0, 1, 0, 0, 0, 0, 0, 1, 0 :: int] = 10"
    "set [1, 0, 1, 0, 0, 0, 0, 0, 1, 0 :: int] \<subseteq> {0, 1}"
    by simp_all
  from h sdes_roundtrip [OF h] show ?thesis by (intro conjI)
qed

section \<open>Cipher A: the width of the block\<close>

lemma permute_IP_long:
  "permute (a # b # c # d # e # f # g # h # rest) IP 8 = Some [b, f, c, a, d, h, e, g]"
  by (simp add: permute_def IP_def upt_8 at_def)

lemma sdes_long:
  "sdes (a # b # c # d # e # f # g # h # rest) key decrypt = sdes [a, b, c, d, e, f, g, h] key decrypt"
  unfolding sdes_def permute_IP_long permute_IP by (rule refl)

lemma feistel_defined:
  assumes b: "set [b0, b1, b2, b3, b4, b5, b6, b7] \<subseteq> {0, 1}"
    and ka: "set [p0, p1, p2, p3, p4, p5, p6, p7] \<subseteq> {0, 1}"
    and kb: "set [q0, q1, q2, q3, q4, q5, q6, q7] \<subseteq> {0, 1}"
  shows "\<exists>ct. (case functionF [b1, b5, b2, b0] [b3, b7, b4, b6] [p0, p1, p2, p3, p4, p5, p6, p7] of
                 None \<Rightarrow> None
               | Some f1 \<Rightarrow>
                   (case functionF (drop 4 f1) (take 4 f1) [q0, q1, q2, q3, q4, q5, q6, q7] of
                      None \<Rightarrow> None
                    | Some f2 \<Rightarrow> permute f2 IP_INV 8)) = Some ct
              \<and> length ct = 8"
proof -
  have bb: "b0 \<in> {0, 1}" "b1 \<in> {0, 1}" "b2 \<in> {0, 1}" "b3 \<in> {0, 1}"
      "b4 \<in> {0, 1}" "b5 \<in> {0, 1}" "b6 \<in> {0, 1}" "b7 \<in> {0, 1}"
    using b by simp_all
  have r: "set [b3, b7, b4, b6] \<subseteq> {0, 1}"
    using bb by simp
  obtain c0 c1 c2 c3 where c: "set [c0, c1, c2, c3] \<subseteq> {0, 1}"
      "\<And>l0 l1 l2 l3. functionF [l0, l1, l2, l3] [b3, b7, b4, b6] [p0, p1, p2, p3, p4, p5, p6, p7]
          = Some [l0 XOR c0, l1 XOR c1, l2 XOR c2, l3 XOR c3, b3, b7, b4, b6]"
    using functionF_bits [OF r ka] by blast
  have cb: "c0 \<in> {0, 1}" "c1 \<in> {0, 1}" "c2 \<in> {0, 1}" "c3 \<in> {0, 1}"
    using c(1) by simp_all
  have l': "set [b1 XOR c0, b5 XOR c1, b2 XOR c2, b0 XOR c3] \<subseteq> {0, 1}"
    using xor_bit [OF bb(2) cb(1)] xor_bit [OF bb(6) cb(2)] xor_bit [OF bb(3) cb(3)]
      xor_bit [OF bb(1) cb(4)] by simp
  obtain d0 d1 d2 d3 where d:
      "\<And>l0 l1 l2 l3. functionF [l0, l1, l2, l3] [b1 XOR c0, b5 XOR c1, b2 XOR c2, b0 XOR c3]
            [q0, q1, q2, q3, q4, q5, q6, q7]
          = Some [l0 XOR d0, l1 XOR d1, l2 XOR d2, l3 XOR d3,
                  b1 XOR c0, b5 XOR c1, b2 XOR c2, b0 XOR c3]"
    using functionF_bits [OF l' kb] by blast
  show ?thesis
    by (simp add: c(2) d permute_IP_INV)
qed

lemma sdes_defined:
  assumes b: "set [b0, b1, b2, b3, b4, b5, b6, b7] \<subseteq> {0, 1}"
    and k: "set [a, b, c, d, e, f, g, h, i, j] \<subseteq> {0, 1}"
  shows "\<exists>ct. sdes [b0, b1, b2, b3, b4, b5, b6, b7] [a, b, c, d, e, f, g, h, i, j] decrypt = Some ct
           \<and> length ct = 8"
proof -
  have k1: "set [a, g, i, d, h, c, j, f] \<subseteq> {0, 1}"
    using k by simp
  have k2: "set [h, c, f, e, j, b, i, a] \<subseteq> {0, 1}"
    using k by simp
  show ?thesis
  proof (cases decrypt)
    case True
    then show ?thesis
      using feistel_defined [OF b k2 k1]
      unfolding sdes_def Let_def generateKeys_explicit permute_IP
      by simp
  next
    case False
    then show ?thesis
      using feistel_defined [OF b k1 k2]
      unfolding sdes_def Let_def generateKeys_explicit permute_IP
      by simp
  qed
qed

text \<open>
  C8, as the code has it. \<open>sdes\<close> checks no width and has no error value for it. The
  width is checked before, by \<open>parseBits\<close>: a string that is not 8 characters long gives
  the empty vector, and the menu does not call \<open>sdes\<close> on an empty input. A block of more
  than 8 bits that reaches \<open>sdes\<close> with a 10-bit key is cut to its first 8 bits without
  notice: the result is the 8-bit result for those first 8 bits.
\<close>

theorem sdes_no_width_check:
  assumes "length s \<noteq> 8" "8 \<le> length block" "set (take 8 block) \<subseteq> {0, 1}"
    "length key = 10" "set key \<subseteq> {0, 1}"
  shows "parseBits s 8 = [] \<and> main_choice4 (parseBits s 8) key decrypt = None
         \<and> (\<exists>ct. sdes block key decrypt = Some ct \<and> length ct = 8
                \<and> sdes (take 8 block) key decrypt = Some ct)"
proof -
  have p: "parseBits s 8 = []"
    using assms(1) by (simp add: parseBits_def)
  have "length (take 8 block) = 8"
    using assms(2) by simp
  then obtain b0 b1 b2 b3 b4 b5 b6 b7 where t: "take 8 block = [b0, b1, b2, b3, b4, b5, b6, b7]"
    by (rule length8E)
  have "block = take 8 block @ drop 8 block"
    by simp
  then have bl: "block = b0 # b1 # b2 # b3 # b4 # b5 # b6 # b7 # drop 8 block"
    by (simp only: t append_Cons append_Nil)
  from assms(4) obtain a b c d e f g h i j where k: "key = [a, b, c, d, e, f, g, h, i, j]"
    by (rule length10E)
  obtain ct where ct: "sdes (take 8 block) key decrypt = Some ct" "length ct = 8"
    using sdes_defined [OF assms(3) [unfolded t] assms(5) [unfolded k], of decrypt]
    unfolding t k by blast
  have "sdes block key decrypt = sdes [b0, b1, b2, b3, b4, b5, b6, b7] key decrypt"
    by (subst bl) (rule sdes_long)
  then have "sdes block key decrypt = Some ct"
    using ct(1) by (simp only: t)
  with ct p show ?thesis
    by (simp add: main_choice4_def)
qed

theorem sdes_no_width_check_witness:
  "length ''1010101'' \<noteq> 8 \<and> 8 \<le> length [1, 0, 1, 0, 1, 0, 1, 0, 1 :: int]
   \<and> set (take 8 [1, 0, 1, 0, 1, 0, 1, 0, 1 :: int]) \<subseteq> {0, 1}
   \<and> length [1, 0, 1, 0, 0, 0, 0, 0, 1, 0 :: int] = 10
   \<and> set [1, 0, 1, 0, 0, 0, 0, 0, 1, 0 :: int] \<subseteq> {0, 1}
   \<and> parseBits ''1010101'' 8 = []
   \<and> main_choice4 (parseBits ''1010101'' 8) [1, 0, 1, 0, 0, 0, 0, 0, 1, 0] False = None
   \<and> (\<exists>ct. sdes [1, 0, 1, 0, 1, 0, 1, 0, 1] [1, 0, 1, 0, 0, 0, 0, 0, 1, 0] False = Some ct
          \<and> length ct = 8
          \<and> sdes (take 8 [1, 0, 1, 0, 1, 0, 1, 0, 1]) [1, 0, 1, 0, 0, 0, 0, 0, 1, 0] False = Some ct)"
proof -
  have h: "length ''1010101'' \<noteq> 8" "8 \<le> length [1, 0, 1, 0, 1, 0, 1, 0, 1 :: int]"
    "set (take 8 [1, 0, 1, 0, 1, 0, 1, 0, 1 :: int]) \<subseteq> {0, 1}"
    "length [1, 0, 1, 0, 0, 0, 0, 0, 1, 0 :: int] = 10"
    "set [1, 0, 1, 0, 0, 0, 0, 0, 1, 0 :: int] \<subseteq> {0, 1}"
    by simp_all
  from h sdes_no_width_check [OF h, of False] show ?thesis by (intro conjI) blast+
qed

lemma sBox_examples:
  "sBox [0, 0, 1, 1] S0 = Some [1, 0]"
  "sBox [0, 0, 1, 0] S1 = Some [0, 1]"
  "sBox [0, 1, 1, 1] S0 = Some [0, 0]"
  "sBox [1, 1, 1, 1] S1 = Some [1, 1]"
  by (simp_all add: sBox_def at_def S0_def S1_def intToBin_2)

lemma functionF_examples:
  "functionF [0, 0, 1, 1] [0, 0, 1, 1] [1, 0, 1, 0, 0, 1, 0, 0] = Some [0, 1, 1, 0, 0, 0, 1, 1]"
  "functionF [0, 0, 1, 1] [0, 1, 1, 0] [0, 1, 0, 0, 0, 0, 1, 1] = Some [0, 1, 0, 1, 0, 1, 1, 0]"
  by (simp_all add: functionF_def permute_E_P XOR_vec_8 sBox_examples permute_P4 XOR_vec_4)

lemma sdes_8_example:
  "sdes [1, 0, 1, 0, 1, 0, 1, 0] [1, 0, 1, 0, 0, 0, 0, 0, 1, 0] False = Some [1, 0, 0, 0, 1, 1, 0, 1]"
  by (simp add: sdes_def generateKeys_explicit permute_IP functionF_examples permute_IP_INV)

text \<open>
  C8, as the specification words it, fails: \<open>sdes\<close> on a block of 9 bits returns a result,
  the same as on the first 8 bits of the block.
\<close>

theorem sdes_width_counterexample:
  "sdes [1, 0, 1, 0, 1, 0, 1, 0, 1] [1, 0, 1, 0, 0, 0, 0, 0, 1, 0] False
     = Some [1, 0, 0, 0, 1, 1, 0, 1]
   \<and> sdes [1, 0, 1, 0, 1, 0, 1, 0] [1, 0, 1, 0, 0, 0, 0, 0, 1, 0] False
     = Some [1, 0, 0, 0, 1, 1, 0, 1]"
proof -
  have "sdes [1, 0, 1, 0, 1, 0, 1, 0, 1] [1, 0, 1, 0, 0, 0, 0, 0, 1, 0] False
      = sdes [1, 0, 1, 0, 1, 0, 1, 0] [1, 0, 1, 0, 0, 0, 0, 0, 1, 0] False"
    by (rule sdes_long)
  then show ?thesis
    by (simp only: sdes_8_example simp_thms)
qed

text \<open>
  A block shorter than 8 bits makes \<open>permute\<close> read \<open>input[7]\<close> outside the vector,
  which is undefined behaviour in C++ and not an error value.
\<close>

lemma those_None: "None \<in> set xs \<Longrightarrow> those xs = None"
  by (induction xs) (auto split: option.splits)

lemma permute_IP_short:
  assumes "length arr < 8"
  shows "permute arr IP 8 = None"
proof -
  have "at arr 7 = None"
    using assms by (simp add: at_def)
  then show ?thesis
    unfolding permute_def by (intro those_None) (simp add: upt_8 IP_def at_def)
qed

lemma sdes_short_block:
  assumes "length input < 8"
  shows "sdes input key decrypt = None"
proof (cases "generateKeys key")
  case None
  then show ?thesis by (simp add: sdes_def)
next
  case (Some ks)
  then show ?thesis
    by (cases ks) (simp add: sdes_def permute_IP_short [OF assms])
qed

section \<open>Modular exponentiation\<close>

lemma ll_rem_nonneg: "0 \<le> a \<Longrightarrow> 0 < b \<Longrightarrow> ll_rem a b = Some (a mod b)"
  by (cases "a = 0") (simp_all add: ll_rem_def LL_MIN_def)

lemma ll_mul_bounded:
  assumes "0 \<le> a" "a \<le> n" "0 \<le> b" "b \<le> n" "n * n \<le> LL_MAX"
  shows "ll_mul a b = Some (a * b)"
proof -
  have "a * b \<le> n * n"
    using assms by (intro mult_mono) simp_all
  moreover have "0 \<le> a * b"
    using assms by simp
  ultimately show ?thesis
    using assms(5) by (simp add: ll_mul_def LL_MIN_def)
qed

lemma square_step:
  fixes b m :: int
  shows "((b * b) mod m) ^ k mod m = b ^ (2 * k) mod m"
proof -
  have "((b * b) mod m) ^ k mod m = (b * b) ^ k mod m"
    by (rule power_mod)
  also have "(b * b) ^ k = b ^ (2 * k)"
    by (simp add: power_mult power2_eq_square)
  finally show ?thesis .
qed

lemma even_step:
  fixes r b m :: int
  shows "r * ((b * b) mod m) ^ k mod m = r * b ^ (2 * k) mod m"
proof -
  have "r * ((b * b) mod m) ^ k mod m = r * (((b * b) mod m) ^ k mod m) mod m"
    by (simp add: mod_mult_right_eq)
  also have "\<dots> = r * (b ^ (2 * k) mod m) mod m"
    by (simp only: square_step)
  also have "\<dots> = r * b ^ (2 * k) mod m"
    by (simp add: mod_mult_right_eq)
  finally show ?thesis .
qed

lemma odd_step:
  fixes r b m :: int
  shows "(r * b mod m) * ((b * b) mod m) ^ k mod m = r * b ^ (2 * k + 1) mod m"
proof -
  have "(r * b mod m) * ((b * b) mod m) ^ k mod m = (r * b) * ((b * b) mod m) ^ k mod m"
    by (simp add: mod_mult_left_eq)
  also have "\<dots> = (r * b) * b ^ (2 * k) mod m"
    by (rule even_step)
  finally show ?thesis
    by (simp add: mult.assoc)
qed

lemma power_loop_correct:
  assumes "0 \<le> r" "0 \<le> b" "b < m" "0 \<le> e" "(m - 1) * (m - 1) \<le> LL_MAX"
    and "r < m \<or> (r = 1 \<and> 0 < e)"
  shows "power_loop r b e m = Some (r * b ^ nat e mod m)"
  using assms
proof (induction "nat e" arbitrary: r b e rule: less_induct)
  case less
  have m: "0 < m" using less.prems(2,3) by simp
  show ?case
  proof (cases "0 < e")
    case False
    then have e: "e = 0" using less.prems(4) by simp
    then have "r < m" using less.prems(6) by simp
    then show ?thesis
      using less.prems(1) e by (subst power_loop.simps) simp
  next
    case True
    define k where "k = nat (e div 2)"
    have kl: "nat (e div 2) < nat e" using True by simp
    have e2: "0 \<le> e div 2" using True by simp
    have bm: "b \<le> m - 1" using less.prems(3) by simp
    have sq: "Option.bind (ll_mul b b) (\<lambda>p. ll_rem p m) = Some (b * b mod m)"
      using ll_mul_bounded [OF less.prems(2) bm less.prems(2) bm less.prems(5)]
        ll_rem_nonneg [of "b * b" m] less.prems(2) m by simp
    have b1: "0 \<le> b * b mod m" "b * b mod m < m"
      using m by simp_all
    have rem2: "ll_rem e 2 = Some (e mod 2)"
      using True by (simp add: ll_rem_nonneg)
    show ?thesis
    proof (cases "e mod 2 = 1")
      case odd: True
      have rb: "r * b \<le> LL_MAX \<and> 0 \<le> r * b"
      proof (cases "r < m")
        case True
        then have "r \<le> m - 1" by simp
        then have "r * b \<le> (m - 1) * (m - 1)"
          using less.prems(1,2) bm by (intro mult_mono) simp_all
        then show ?thesis using less.prems(1,2,5) by simp
      next
        case False
        then have "r = 1" using less.prems(6) by simp
        moreover have "b \<le> (m - 1) * (m - 1)"
        proof (cases "b = 0")
          case True
          then show ?thesis by simp
        next
          case False
          then have "1 \<le> m - 1" using less.prems(2) bm by simp
          then have "b * 1 \<le> (m - 1) * (m - 1)"
            using bm less.prems(2) by (intro mult_mono) simp_all
          then show ?thesis by simp
        qed
        ultimately show ?thesis using less.prems(2,5) by simp
      qed
      have mul: "Option.bind (ll_mul r b) (\<lambda>p. ll_rem p m) = Some (r * b mod m)"
        using rb m by (simp add: ll_mul_def LL_MIN_def ll_rem_nonneg)
      have r1: "0 \<le> r * b mod m" "r * b mod m < m"
        using m by simp_all
      have ih: "power_loop (r * b mod m) (b * b mod m) (e div 2) m
          = Some ((r * b mod m) * (b * b mod m) ^ nat (e div 2) mod m)"
        using less.hyps [OF kl r1(1) b1 e2 less.prems(5)] r1(2) by simp
      have "e = 2 * (e div 2) + e mod 2"
        by simp
      then have "e = 2 * (e div 2) + 1"
        using odd by simp
      then have "nat e = nat (2 * (e div 2) + 1)"
        by simp
      also have "\<dots> = 2 * nat (e div 2) + 1"
        using e2 by (simp add: nat_add_distrib nat_mult_distrib)
      finally have ne: "nat e = 2 * nat (e div 2) + 1" .
      have "power_loop r b e m = power_loop (r * b mod m) (b * b mod m) (e div 2) m"
        using True odd by (subst power_loop.simps) (simp add: rem2 mul sq drop_bit_eq_div)
      then show ?thesis
        by (simp only: ih ne odd_step)
    next
      case even: False
      then have ev: "e mod 2 = 0" by presburger
      have inv: "r < m \<or> (r = 1 \<and> 0 < e div 2)"
        using less.prems(6) True ev by presburger
      have ih: "power_loop r (b * b mod m) (e div 2) m
          = Some (r * (b * b mod m) ^ nat (e div 2) mod m)"
        using less.hyps [OF kl less.prems(1) b1 e2 less.prems(5) inv] .
      have "e = 2 * (e div 2) + e mod 2"
        by simp
      then have "e = 2 * (e div 2)"
        using ev by simp
      then have "nat e = nat (2 * (e div 2))"
        by simp
      also have "\<dots> = 2 * nat (e div 2)"
        using e2 by (simp add: nat_mult_distrib)
      finally have ne: "nat e = 2 * nat (e div 2)" .
      have "power_loop r b e m = power_loop r (b * b mod m) (e div 2) m"
        using True ev by (subst power_loop.simps) (simp add: rem2 sq drop_bit_eq_div)
      then show ?thesis
        by (simp only: ih ne even_step)
    qed
  qed
qed

text \<open>
  C9, as the code has it. \<open>power\<close> is binary exponentiation in 64-bit signed arithmetic:
  for every base and exponent that are not negative and every modulus from 1 on whose
  square of \<open>modulus - 1\<close> fits in a \<open>long long\<close>, so that no product overflows, and
  with the exponent positive or the modulus above 1, \<open>power\<close> returns
  \<open>base ^ exp mod modulus\<close>.
\<close>

theorem power_correct:
  assumes "0 \<le> base" "0 \<le> exp" "1 \<le> modulus"
    and "(modulus - 1) * (modulus - 1) \<le> LL_MAX"
    and "0 < exp \<or> 1 < modulus"
  shows "power base exp modulus = Some (base ^ nat exp mod modulus)"
proof -
  have m: "0 < modulus" using assms(3) by simp
  have b: "ll_rem base modulus = Some (base mod modulus)"
    using assms(1) m by (rule ll_rem_nonneg)
  have b1: "0 \<le> base mod modulus" "base mod modulus < modulus"
    using m by simp_all
  have inv: "1 < modulus \<or> ((1 :: int) = 1 \<and> 0 < exp)"
    using assms(5) by auto
  have "power_loop 1 (base mod modulus) exp modulus
      = Some (1 * (base mod modulus) ^ nat exp mod modulus)"
    using power_loop_correct [OF _ b1 assms(2) assms(4) inv] by simp
  then show ?thesis
    by (simp add: power_def b power_mod)
qed

theorem power_correct_witness:
  "(0 :: int) \<le> 9 \<and> (0 :: int) \<le> 4 \<and> (1 :: int) \<le> 23 \<and> (23 - 1) * (23 - 1) \<le> LL_MAX
   \<and> ((0 :: int) < 4 \<or> (1 :: int) < 23)
   \<and> power 9 4 23 = Some 6"
proof -
  have h: "(0 :: int) \<le> 9" "(0 :: int) \<le> 4" "(1 :: int) \<le> 23" "(23 - 1) * (23 - 1) \<le> LL_MAX"
    "(0 :: int) < 4 \<or> (1 :: int) < 23"
    by (simp_all add: LL_MAX_def)
  have "(9 :: int) ^ nat 4 mod 23 = 6"
    by simp
  then show ?thesis
    using h power_correct [OF h] by simp
qed

text \<open>
  C9, as the specification words it, fails: with the modulus \<open>2 ^ 63 - 1\<close>, the base
  \<open>2 ^ 32\<close> and the exponent 2, the square of the base is \<open>2 ^ 64\<close>, outside
  \<open>long long\<close>, and \<open>power\<close> does not return \<open>base ^ exp mod modulus\<close>.
\<close>

theorem power_overflow_counterexample:
  "power 4294967296 2 9223372036854775807
     \<noteq> Some (4294967296 ^ nat 2 mod 9223372036854775807)"
proof -
  have "power_loop 1 4294967296 2 9223372036854775807 = None"
    by (subst power_loop.simps) (simp add: ll_rem_def ll_mul_def LL_MAX_def LL_MIN_def)
  then have "power 4294967296 2 9223372036854775807 = None"
    by (simp add: power_def ll_rem_def LL_MIN_def)
  then show ?thesis by simp
qed

text \<open>
  With the exponent 0 and the modulus 1 the loop does not run and \<open>power\<close> returns its
  initial \<open>result = 1\<close>, where \<open>base ^ 0 mod 1\<close> is 0.
\<close>

lemma power_exp_0_modulus_1: "power base 0 1 = Some 1 \<and> base ^ nat 0 mod 1 = (0 :: int)"
proof -
  have "power_loop 1 0 0 1 = Some 1"
    by (subst power_loop.simps) simp
  then show ?thesis
    by (simp add: power_def ll_rem_def)
qed

end
